theory Spec2Isabelle
  imports Main
begin

section \<open>ECMAScript values and built-ins used by index.js\<close>

subsection \<open>Decimal digit strings\<close>

definition isDigit :: "char \<Rightarrow> bool" where
  "isDigit c = (48 \<le> (of_char c :: nat) \<and> (of_char c :: nat) \<le> 57)"

definition digitVal :: "char \<Rightarrow> nat" where
  "digitVal c = of_char c - 48"

definition digitChar :: "nat \<Rightarrow> char" where
  "digitChar n = ''0123456789'' ! n"

text \<open>The mathematical value of a string of decimal digits, most significant first.\<close>

definition digitsToNat :: "string \<Rightarrow> nat" where
  "digitsToNat s = foldl (\<lambda>acc c. 10 * acc + digitVal c) 0 s"

text \<open>The digits of the decimal representation of a non-negative integer (\<open>''0''\<close> for 0).\<close>

fun natToDigits :: "nat \<Rightarrow> string" where
  "natToDigits n =
     (if n < 10 then [digitChar n] else natToDigits (n div 10) @ [digitChar (n mod 10)])"

declare natToDigits.simps [simp del]

definition zeros :: "nat \<Rightarrow> string" where
  "zeros n = replicate n (CHR ''0'')"

definition stripTrailingZeros :: "string \<Rightarrow> string" where
  "stripTrailingZeros s = rev (dropWhile (\<lambda>c. c = CHR ''0'') (rev s))"

definition startsWith :: "string \<Rightarrow> string \<Rightarrow> bool" where
  "startsWith s p = (take (length p) s = p)"

subsection \<open>Numbers\<close>

text \<open>
  A JavaScript Number is NaN, an infinity or a finite value. A finite value is kept by
  its exact decimal expansion: \<open>Fin m k\<close> denotes \<open>m / 10 ^ k\<close> (every binary64 value
  is such a decimal). Arithmetic on finite values is exact here: the rounding of binary64
  arithmetic and the sign of zero are outside this model.
\<close>

datatype number = NaN | PosInf | NegInf | Fin int nat

definition isNaN :: "number \<Rightarrow> bool" where
  "isNaN x = (x = NaN)"

fun num_neg :: "number \<Rightarrow> number" where
  "num_neg NaN = NaN"
| "num_neg PosInf = NegInf"
| "num_neg NegInf = PosInf"
| "num_neg (Fin m k) = Fin (- m) k"

fun num_add :: "number \<Rightarrow> number \<Rightarrow> number" where
  "num_add NaN y = NaN"
| "num_add x NaN = NaN"
| "num_add PosInf NegInf = NaN"
| "num_add NegInf PosInf = NaN"
| "num_add PosInf y = PosInf"
| "num_add NegInf y = NegInf"
| "num_add x PosInf = PosInf"
| "num_add x NegInf = NegInf"
| "num_add (Fin m k) (Fin n j) = Fin (m * 10 ^ j + n * 10 ^ k) (k + j)"

definition num_sub :: "number \<Rightarrow> number \<Rightarrow> number" where
  "num_sub x y = num_add x (num_neg y)"

fun num_sgn :: "number \<Rightarrow> int" where
  "num_sgn NaN = 0"
| "num_sgn PosInf = 1"
| "num_sgn NegInf = - 1"
| "num_sgn (Fin m k) = sgn m"

fun num_mul :: "number \<Rightarrow> number \<Rightarrow> number" where
  "num_mul NaN y = NaN"
| "num_mul x NaN = NaN"
| "num_mul (Fin m k) (Fin n j) = Fin (m * n) (k + j)"
| "num_mul x y =
     (if num_sgn x * num_sgn y = 0 then NaN
      else if num_sgn x * num_sgn y > 0 then PosInf else NegInf)"

text \<open>The relational operators: every comparison with NaN is false.\<close>

fun num_lt :: "number \<Rightarrow> number \<Rightarrow> bool" where
  "num_lt NaN y = False"
| "num_lt x NaN = False"
| "num_lt PosInf y = False"
| "num_lt x NegInf = False"
| "num_lt NegInf y = True"
| "num_lt x PosInf = True"
| "num_lt (Fin m k) (Fin n j) = (m * 10 ^ j < n * 10 ^ k)"

fun num_le :: "number \<Rightarrow> number \<Rightarrow> bool" where
  "num_le NaN y = False"
| "num_le x NaN = False"
| "num_le x y = (\<not> num_lt y x)"

text \<open>\<open>Math.floor\<close>.\<close>

fun math_floor :: "number \<Rightarrow> number" where
  "math_floor (Fin m k) = Fin (m div 10 ^ k) 0"
| "math_floor x = x"

subsection \<open>Number.prototype.toString and Number.prototype.toFixed\<close>

text \<open>
  \<open>Number::toString\<close> of a positive finite value \<open>a / 10 ^ k\<close> (ECMA-262, 6.1.6.1.20):
  with \<open>sig\<close> the significant digits (\<open>kk\<close> of them) and \<open>n\<close> the position of the
  decimal point, the value is written as an integer, with a decimal point, with leading
  \<open>0.\<close>, or in exponent notation when \<open>n > 21\<close> or \<open>n \<le> - 6\<close>. The digits are those
  of the exact decimal kept here, which for the value of a literal are the digits of the
  literal; the standard prints the shortest digits that read back as the binary64 value.
\<close>

definition posToString :: "nat \<Rightarrow> nat \<Rightarrow> string" where
  "posToString a k =
     (let ds = natToDigits a;
          sig = stripTrailingZeros ds;
          kk = length sig;
          n = int (length ds) - int k
      in if int kk \<le> n \<and> n \<le> 21 then sig @ zeros (nat n - kk)
         else if 0 < n \<and> n \<le> 21 then take (nat n) sig @ ''.'' @ drop (nat n) sig
         else if - 6 < n \<and> n \<le> 0 then ''0.'' @ zeros (nat (- n)) @ sig
         else let e = n - 1;
                  es = (if e < 0 then ''-'' else ''+'') @ natToDigits (nat \<bar>e\<bar>)
              in if kk = 1 then sig @ ''e'' @ es
                 else take 1 sig @ ''.'' @ drop 1 sig @ ''e'' @ es)"

fun numberToString :: "number \<Rightarrow> string" where
  "numberToString NaN = ''NaN''"
| "numberToString PosInf = ''Infinity''"
| "numberToString NegInf = ''-Infinity''"
| "numberToString (Fin m k) =
     (if m = 0 then ''0''
      else if m < 0 then ''-'' @ posToString (nat (- m)) k
      else posToString (nat m) k)"

datatype error =
    RangeError
  | InvalidDecimal
  | MissingValue
  | TooManyPoints
  | FractionExceedsDecimals
  | CallFailed

text \<open>
  The integer \<open>n\<close> for which \<open>n / 10 ^ f - a / 10 ^ k\<close> is as close to zero as possible,
  the larger one when there are two (step 11a of \<open>toFixed\<close>).
\<close>

definition roundScaled :: "nat \<Rightarrow> nat \<Rightarrow> nat \<Rightarrow> nat" where
  "roundScaled a k f = (2 * a * 10 ^ f + 10 ^ k) div (2 * 10 ^ k)"

text \<open>Steps 11b and 11c of \<open>toFixed\<close>: the digits of \<open>n\<close> with a point before the last \<open>f\<close>.\<close>

definition fixedDigits :: "nat \<Rightarrow> nat \<Rightarrow> string" where
  "fixedDigits n f =
     (let m = natToDigits n
      in if f = 0 then m
         else let m' = (if length m \<le> f then zeros (f + 1 - length m) @ m else m);
                  k = length m'
              in take (k - f) m' @ ''.'' @ drop (k - f) m')"

text \<open>
  \<open>x.toFixed(f)\<close> (ECMA-262, 21.1.3.3): a RangeError when \<open>f > 100\<close>, \<open>Number::toString\<close>
  when \<open>x\<close> is not finite or \<open>\<bar>x\<bar> \<ge> 10 ^ 21\<close>, the rounded fixed-point digits otherwise.
\<close>

fun toFixed :: "number \<Rightarrow> nat \<Rightarrow> error + string" where
  "toFixed (Fin m k) f =
     (if f > 100 then Inl RangeError
      else let s = (if m < 0 then ''-'' else '''');
               a = nat \<bar>m\<bar>
           in if a \<ge> 10 ^ 21 * 10 ^ k then Inr (s @ numberToString (Fin (int a) k))
              else Inr (s @ fixedDigits (roundScaled a k f) f))"
| "toFixed x f = (if f > 100 then Inl RangeError else Inr (numberToString x))"

subsection \<open>parseFloat and parseInt\<close>

text \<open>White space that \<open>TrimString\<close> removes, for the ASCII range.\<close>

definition isWhiteSpace :: "char \<Rightarrow> bool" where
  "isWhiteSpace c = ((of_char c :: nat) \<in> {9, 10, 11, 12, 13, 32})"

definition trimStart :: "string \<Rightarrow> string" where
  "trimStart s = dropWhile isWhiteSpace s"

text \<open>An optional sign: whether it is \<open>-\<close>, and the rest of the string.\<close>

fun stripSign :: "string \<Rightarrow> bool \<times> string" where
  "stripSign [] = (False, [])"
| "stripSign (c # cs) =
     (if c = CHR ''-'' then (True, cs) else if c = CHR ''+'' then (False, cs) else (False, c # cs))"

text \<open>
  The optional \<open>ExponentPart\<close> at the head of a string: \<open>e\<close> or \<open>E\<close>, an optional sign and
  at least one digit; 0 when there is none.
\<close>

definition exponentPart :: "string \<Rightarrow> int" where
  "exponentPart s =
     (case s of
        [] \<Rightarrow> 0
      | c # cs \<Rightarrow>
          if c = CHR ''e'' \<or> c = CHR ''E'' then
            (let (neg, r) = stripSign cs; ed = takeWhile isDigit r
             in if ed = [] then 0
                else if neg then - int (digitsToNat ed) else int (digitsToNat ed))
          else 0)"

text \<open>
  \<open>parseFloat\<close> (ECMA-262, 19.2.4): the value of the longest prefix of the trimmed string
  that is a \<open>StrDecimalLiteral\<close>, NaN when there is none. The value is the exact decimal
  of the literal: it is not rounded to binary64, so a literal beyond the range of binary64
  stays finite and a tiny one stays different from zero.
\<close>

definition parseFloat :: "string \<Rightarrow> number" where
  "parseFloat s =
     (let (neg, u) = stripSign (trimStart s)
      in if startsWith u ''Infinity'' then (if neg then NegInf else PosInf)
         else let ip = takeWhile isDigit u;
                  r1 = dropWhile isDigit u;
                  hasPoint = startsWith r1 ''.'';
                  fp = (if hasPoint then takeWhile isDigit (tl r1) else []);
                  r2 = (if hasPoint then dropWhile isDigit (tl r1) else r1)
              in if ip = [] \<and> fp = [] then NaN
                 else let e = exponentPart r2 - int (length fp);
                          mant = int (digitsToNat (ip @ fp));
                          sm = (if neg then - mant else mant)
                      in if e \<ge> 0 then Fin (sm * 10 ^ nat e) 0 else Fin sm (nat (- e)))"

definition isHexDigit :: "char \<Rightarrow> bool" where
  "isHexDigit c =
     (isDigit c \<or> (97 \<le> (of_char c :: nat) \<and> (of_char c :: nat) \<le> 102)
        \<or> (65 \<le> (of_char c :: nat) \<and> (of_char c :: nat) \<le> 70))"

definition hexVal :: "char \<Rightarrow> nat" where
  "hexVal c =
     (if isDigit c then of_char c - 48
      else if 97 \<le> (of_char c :: nat) then of_char c - 87
      else of_char c - 55)"

definition hexToNat :: "string \<Rightarrow> nat" where
  "hexToNat s = foldl (\<lambda>acc c. 16 * acc + hexVal c) 0 s"

text \<open>
  \<open>parseInt(string)\<close> with no radix (ECMA-262, 19.2.5): trim, an optional sign, radix 16
  after \<open>0x\<close> or \<open>0X\<close> and 10 otherwise, then the longest prefix of digits of the radix;
  NaN when that prefix is empty. What follows the prefix is ignored. The integer is kept
  exactly, also above \<open>2 ^ 53\<close>.
\<close>

definition parseInt :: "string \<Rightarrow> number" where
  "parseInt s =
     (let (neg, u) = stripSign (trimStart s)
      in if startsWith u ''0x'' \<or> startsWith u ''0X'' then
           (let z = takeWhile isHexDigit (drop 2 u)
            in if z = [] then NaN
               else Fin (if neg then - int (hexToNat z) else int (hexToNat z)) 0)
         else
           (let z = takeWhile isDigit u
            in if z = [] then NaN
               else Fin (if neg then - int (digitsToNat z) else int (digitsToNat z)) 0))"

subsection \<open>Comparison of strings and of big integers\<close>

text \<open>The \<open><\<close> operator on two strings: lexicographic on the code units.\<close>

fun stringLess :: "string \<Rightarrow> string \<Rightarrow> bool" where
  "stringLess [] [] = False"
| "stringLess [] (y # ys) = True"
| "stringLess (x # xs) [] = False"
| "stringLess (x # xs) (y # ys) =
     ((of_char x :: nat) < of_char y \<or> (x = y \<and> stringLess xs ys))"

text \<open>The decimal string of an integer (\<open>BigNumber.toString()\<close>, \<open>BigInt.toString()\<close>).\<close>

definition bigToString :: "int \<Rightarrow> string" where
  "bigToString n = (if n < 0 then ''-'' @ natToDigits (nat (- n)) else natToDigits (nat n))"

section \<open>The ledger client's parser\<close>

text \<open>
  Modelled from the spec: \<open>parseUnits\<close> belongs to the ledger client library (ethers), which
  is not among the sources. The spec describes it as the value-parsing function keyed by
  decimal precision that turns a decimal string into the token's smallest-unit integer and
  rejects over-precise decimal strings. The model accepts an optional \<open>-\<close>, digits and at
  most one point (at least one digit), ignores trailing zeros of the fraction, rejects a
  fraction longer than \<open>decimals\<close>, and returns \<open>whole * 10 ^ decimals + fraction\<close>.
\<close>

definition parseUnits :: "string \<Rightarrow> nat \<Rightarrow> error + int" where
  "parseUnits v decimals =
     (let negative = startsWith v ''-'';
          u = (if negative then tl v else v)
      in if u = [] \<or> list_ex (\<lambda>c. \<not> (isDigit c \<or> c = CHR ''.'')) u then Inl InvalidDecimal
         else if u = ''.'' then Inl MissingValue
         else let whole0 = takeWhile (\<lambda>c. c \<noteq> CHR ''.'') u;
                  frac0 = tl (dropWhile (\<lambda>c. c \<noteq> CHR ''.'') u)
              in if CHR ''.'' \<in> set frac0 then Inl TooManyPoints
                 else let whole = (if whole0 = [] then ''0'' else whole0);
                          fraction = stripTrailingZeros (if frac0 = [] then ''0'' else frac0)
                      in if length fraction > decimals then Inl FractionExceedsDecimals
                         else let wei = int (digitsToNat whole * 10 ^ decimals
                                             + digitsToNat (fraction @ zeros (decimals - length fraction)))
                              in Inr (if negative then - wei else wei))"

text \<open>\<open>parseEther\<close> is \<open>parseUnits\<close> at 18 decimals.\<close>

definition parseEther :: "string \<Rightarrow> error + int" where
  "parseEther v = parseUnits v 18"

definition MaxUint256 :: nat where
  "MaxUint256 = 2 ^ 256 - 1"

section \<open>index.js\<close>

subsection \<open>The environment of a run\<close>

text \<open>
  Everything the script reads from outside: the process environment, the shape of the
  installed ethers package, the answers typed at the five prompts, what the endpoint and
  the contracts answer, and the successive results of \<open>Math.random()\<close>.
\<close>

datatype txOutcome = SendFails | WaitFails | Confirmed

record world =
  envComplete :: bool
  SUBSCRIBE_VALUE :: string
  ethersInstalled :: bool
  isV6 :: bool
  isV5 :: bool
  rpcOk :: "nat \<Rightarrow> bool"
  minStr :: string
  maxStr :: string
  loopsStr :: string
  delayMinStr :: string
  delayMaxStr :: string
  decimalsRaw :: "nat option"
  allowanceRes :: "nat option"
  approveRes :: txOutcome
  subscribeRes :: "nat \<Rightarrow> txOutcome"
  mathRandom :: "nat \<Rightarrow> number"

text \<open>
  \<open>rpcOk w k\<close>: constructing the provider and the wallet and \<open>provider.getNetwork()\<close> all
  succeed in attempt \<open>k\<close>. \<open>decimalsRaw\<close> and \<open>allowanceRes\<close> are \<open>None\<close> when the call throws.
  \<open>subscribeRes w i\<close> is the fate of the transaction of iteration \<open>i\<close>; \<open>mathRandom w n\<close>
  is the result of the \<open>n\<close>-th call of \<open>Math.random()\<close>, counted from 0.
\<close>

text \<open>What the process does that can be observed, in order.\<close>

datatype event =
    ErrMissingEnv
  | ErrInstallEthers
  | ErrUnsupportedEthers
  | GetNetwork nat
  | LogConnected nat
  | WarnRpcFailed nat
  | ErrExceededAttempts
  | LogRetrying number
  | Sleep number
  | LogAddresses
  | Ask nat
  | ErrInvalidInput
  | ErrInvalidRange
  | CallDecimals
  | LogDecimals nat
  | CallAllowance
  | LogAllowance nat
  | LogApproving
  | CallApprove nat
  | LogApproveTx
  | WaitApprove
  | LogApproveConfirmed
  | LogAllowanceSufficient
  | LogSubscribeValue int
  | LogNominal nat string int
  | CallSubscribe int int
  | LogTxSent
  | WaitSubscribe
  | LogConfirmed
  | ErrSubscribe
  | LogWaiting number
  | LogDone
  | ErrFatal error
  | Exit nat

text \<open>
  How a block of the script ends: it runs to its end, it calls \<open>process.exit\<close>, or it
  throws.
\<close>

datatype outcome = Completed | Exited | Thrown error

definition prefixed :: "event list \<Rightarrow> event list \<times> outcome \<Rightarrow> event list \<times> outcome" where
  "prefixed es r = (case r of (tr, out) \<Rightarrow> (es @ tr, out))"

subsection \<open>randomFloat (line 23)\<close>

text \<open>
  \<open>randomFloat(min, max)\<close> for \<open>min = lo\<close> and \<open>max = hi\<close>, with \<open>r\<close> the result of its
  call of \<open>Math.random()\<close>. The difference, the product and the sum are exact, where the
  code rounds each to binary64: the properties stated of a draw take its value as given.
\<close>

definition randomFloat :: "number \<Rightarrow> number \<Rightarrow> number \<Rightarrow> number" where
  "randomFloat lo hi r = num_add (num_mul r (num_sub hi lo)) lo"

subsection \<open>Connecting to the endpoint (lines 63 to 83)\<close>

definition MAX_ATTEMPTS :: nat where
  "MAX_ATTEMPTS = 8"

definition BASE_DELAY_MS :: nat where
  "BASE_DELAY_MS = 2000"

text \<open>
  The retry loop from \<open>attempt\<close> on. The result says whether the script goes on after the
  loop (\<open>Completed\<close>) or the process has exited.
\<close>

function connect :: "world \<Rightarrow> nat \<Rightarrow> event list \<times> outcome" where
  "connect w attempt =
     (if attempt \<le> MAX_ATTEMPTS then
        (if rpcOk w attempt then ([GetNetwork attempt, LogConnected attempt], Completed)
         else if attempt = MAX_ATTEMPTS then
           ([GetNetwork attempt, WarnRpcFailed attempt, ErrExceededAttempts, Exit 1], Exited)
         else
           (let delay = Fin (int (BASE_DELAY_MS * 2 ^ (attempt - 1))) 0
            in prefixed [GetNetwork attempt, WarnRpcFailed attempt, LogRetrying delay, Sleep delay]
                 (connect w (attempt + 1))))
      else ([], Completed))"
  by pat_completeness auto
termination
  by (relation "measure (\<lambda>(w, attempt). Suc MAX_ATTEMPTS - attempt)") auto

declare connect.simps [simp del]

subsection \<open>Reading and validating the operator's inputs (lines 104 to 123)\<close>

record inputs =
  minVal :: number
  maxVal :: number
  loops :: number
  delayMin :: number
  delayMax :: number

definition readInputs :: "world \<Rightarrow> inputs" where
  "readInputs w =
     \<lparr> minVal = parseFloat (minStr w),
       maxVal = parseFloat (maxStr w),
       loops = parseInt (loopsStr w),
       delayMin = parseFloat (delayMinStr w),
       delayMax = parseFloat (delayMaxStr w) \<rparr>"

definition someNaN :: "inputs \<Rightarrow> bool" where
  "someNaN v = list_ex isNaN [minVal v, maxVal v, loops v, delayMin v, delayMax v]"

definition zero :: number where
  "zero = Fin 0 0"

definition rangeInvalid :: "inputs \<Rightarrow> bool" where
  "rangeInvalid v =
     (num_le (minVal v) zero \<or> num_le (maxVal v) zero \<or> num_le (loops v) zero
      \<or> num_lt (delayMin v) zero \<or> num_lt (delayMax v) zero
      \<or> num_lt (maxVal v) (minVal v) \<or> num_lt (delayMax v) (delayMin v))"

subsection \<open>The allowance check (lines 131 to 145)\<close>

text \<open>
  Line 136: \<open>(allowance.lt && allowance.lt(approxMaxNeeded)) || (allowance < approxMaxNeeded)\<close>.
  With the version 6 bindings both values are BigInts: \<open>allowance.lt\<close> is undefined and
  \<open><\<close> compares the integers. With the version 5 bindings both are BigNumber objects:
  \<open>allowance.lt(approxMaxNeeded)\<close> compares the integers, and when it is false the right
  operand of \<open>||\<close> is evaluated, where \<open><\<close> converts each object to a primitive, which is
  its decimal string (\<open>BigNumber.toString()\<close>), and compares the two strings.
\<close>

definition allowTooSmall :: "bool \<Rightarrow> nat \<Rightarrow> int \<Rightarrow> bool" where
  "allowTooSmall v6 allowance approxMaxNeeded =
     (if v6 then int allowance < approxMaxNeeded
      else (int allowance < approxMaxNeeded
            \<or> stringLess (bigToString (int allowance)) (bigToString approxMaxNeeded)))"

definition allowanceGuard :: "world \<Rightarrow> int \<Rightarrow> nat \<Rightarrow> event list \<times> outcome" where
  "allowanceGuard w approxMaxNeeded allowance =
     (if allowTooSmall (isV6 w) allowance approxMaxNeeded then
        (case approveRes w of
           SendFails \<Rightarrow> ([LogApproving, CallApprove MaxUint256], Thrown CallFailed)
         | WaitFails \<Rightarrow>
             ([LogApproving, CallApprove MaxUint256, LogApproveTx, WaitApprove], Thrown CallFailed)
         | Confirmed \<Rightarrow>
             ([LogApproving, CallApprove MaxUint256, LogApproveTx, WaitApprove,
               LogApproveConfirmed], Completed))
      else ([LogAllowanceSufficient], Completed))"

subsection \<open>The submission loop (lines 150 to 180)\<close>

text \<open>
  Lines 152 to 158: the draw, its display string and its parsed amount. Both \<open>toFixed\<close> and
  \<open>parseUnits\<close> are called outside the \<open>try\<close> of the iteration.
\<close>

definition nextAmount :: "number \<Rightarrow> number \<Rightarrow> nat \<Rightarrow> number \<Rightarrow> error + string \<times> int" where
  "nextAmount lo hi decimalsNum r =
     (case toFixed (randomFloat lo hi r) decimalsNum of
        Inl e \<Rightarrow> Inl e
      | Inr nominalStr \<Rightarrow>
          (case parseUnits nominalStr decimalsNum of
             Inl e \<Rightarrow> Inl e
           | Inr amountParsed \<Rightarrow> Inr (nominalStr, amountParsed)))"

text \<open>Lines 162 to 173: the transaction of iteration \<open>i\<close>, whose failures are caught.\<close>

definition subscribe :: "world \<Rightarrow> nat \<Rightarrow> int \<Rightarrow> int \<Rightarrow> event list" where
  "subscribe w i amountParsed valueWei =
     (case subscribeRes w i of
        SendFails \<Rightarrow> [CallSubscribe amountParsed valueWei, ErrSubscribe]
      | WaitFails \<Rightarrow> [CallSubscribe amountParsed valueWei, LogTxSent, WaitSubscribe, ErrSubscribe]
      | Confirmed \<Rightarrow> [CallSubscribe amountParsed valueWei, LogTxSent, WaitSubscribe, LogConfirmed])"

text \<open>
  The bound of the loop counter: \<open>i <= loops\<close> holds for an integer \<open>i\<close> exactly when
  \<open>i\<close> is at most the floor of a finite \<open>loops\<close>. \<open>parseInt\<close> yields NaN or an integer, and
  NaN does not pass the validation.
\<close>

fun loopCount :: "number \<Rightarrow> int" where
  "loopCount (Fin m k) = m div 10 ^ k"
| "loopCount x = 0"

text \<open>
  The loop from iteration \<open>i\<close> on; \<open>rc\<close> counts the calls of \<open>Math.random()\<close> made so far.
\<close>

function submitLoop :: "world \<Rightarrow> inputs \<Rightarrow> nat \<Rightarrow> int \<Rightarrow> nat \<Rightarrow> nat \<Rightarrow> event list \<times> outcome" where
  "submitLoop w v decimalsNum valueWei i rc =
     (if int i \<le> loopCount (loops v) then
        (case nextAmount (minVal v) (maxVal v) decimalsNum (mathRandom w rc) of
           Inl e \<Rightarrow> ([], Thrown e)
         | Inr (nominalStr, amountParsed) \<Rightarrow>
             prefixed (LogNominal i nominalStr amountParsed # subscribe w i amountParsed valueWei)
               (if int i < loopCount (loops v) then
                  (let delaySec = randomFloat (delayMin v) (delayMax v) (mathRandom w (rc + 1))
                   in prefixed [LogWaiting delaySec, Sleep (math_floor (num_mul delaySec (Fin 1000 0)))]
                        (submitLoop w v decimalsNum valueWei (i + 1) (rc + 2)))
                else submitLoop w v decimalsNum valueWei (i + 1) (rc + 1)))
      else ([], Completed))"
  by pat_completeness auto
termination
  by (relation "measure (\<lambda>(w, v, d, vw, i, rc). nat (loopCount (loops v) + 1 - int i))") auto

declare submitLoop.simps [simp del]

subsection \<open>The whole script\<close>

text \<open>Sequencing: the second block runs only when the first ran to its end.\<close>

definition andThen :: "event list \<times> outcome \<Rightarrow> event list \<times> outcome \<Rightarrow> event list \<times> outcome" where
  "andThen r k =
     (case r of (tr, out) \<Rightarrow> (case out of Completed \<Rightarrow> prefixed tr k | _ \<Rightarrow> (tr, out)))"

text \<open>Lines 147 to 182.\<close>

definition submission :: "world \<Rightarrow> inputs \<Rightarrow> nat \<Rightarrow> event list \<times> outcome" where
  "submission w v decimalsNum =
     (case parseEther (SUBSCRIBE_VALUE w) of
        Inl e \<Rightarrow> ([], Thrown e)
      | Inr valueWei \<Rightarrow>
          prefixed [LogSubscribeValue valueWei]
            (andThen (submitLoop w v decimalsNum valueWei 1 0) ([LogDone], Completed)))"

text \<open>Lines 126 to 145, then the submission.\<close>

definition tokenPhase :: "world \<Rightarrow> inputs \<Rightarrow> event list \<times> outcome" where
  "tokenPhase w v =
     (case decimalsRaw w of
        None \<Rightarrow> ([CallDecimals], Thrown CallFailed)
      | Some decimalsNum \<Rightarrow>
          (case parseUnits (numberToString (maxVal v)) decimalsNum of
             Inl e \<Rightarrow> ([CallDecimals, LogDecimals decimalsNum], Thrown e)
           | Inr approxMaxNeeded \<Rightarrow>
               (case allowanceRes w of
                  None \<Rightarrow>
                    ([CallDecimals, LogDecimals decimalsNum, CallAllowance], Thrown CallFailed)
                | Some allowance \<Rightarrow>
                    prefixed
                      [CallDecimals, LogDecimals decimalsNum, CallAllowance, LogAllowance allowance]
                      (andThen (allowanceGuard w approxMaxNeeded allowance)
                         (submission w v decimalsNum)))))"

text \<open>Lines 98 to 108: the line that shows the addresses, then the five prompts.\<close>

definition asked :: "event list" where
  "asked = [LogAddresses, Ask 1, Ask 2, Ask 3, Ask 4, Ask 5]"

text \<open>The body of the \<open>try\<close> (lines 98 to 182).\<close>

definition body :: "world \<Rightarrow> event list \<times> outcome" where
  "body w =
     (let v = readInputs w
      in if someNaN v then (asked @ [ErrInvalidInput, Exit 1], Exited)
         else if rangeInvalid v then (asked @ [ErrInvalidRange, Exit 1], Exited)
         else prefixed asked (tokenPhase w v))"

text \<open>The \<open>catch\<close> (lines 183 to 186): what is thrown is reported and the process exits.\<close>

fun catchFatal :: "outcome \<Rightarrow> event list" where
  "catchFatal (Thrown e) = [ErrFatal e, Exit 1]"
| "catchFatal out = []"

text \<open>The \<open>try\<close> with its \<open>catch\<close> (lines 97 to 186).\<close>

definition tryBody :: "world \<Rightarrow> event list" where
  "tryBody w = (case body w of (tr, out) \<Rightarrow> tr @ catchFatal out)"

text \<open>
  The run of the script: the check of the environment (line 14), the shape of the ethers
  package (lines 29 to 39), the connection, then the \<open>try\<close>.
\<close>

definition run :: "world \<Rightarrow> event list" where
  "run w =
     (if \<not> envComplete w then [ErrMissingEnv, Exit 1]
      else if \<not> ethersInstalled w then [ErrInstallEthers, Exit 1]
      else if \<not> isV6 w \<and> \<not> isV5 w then [ErrUnsupportedEthers, Exit 1]
      else (case connect w 1 of
              (tr, out) \<Rightarrow> (case out of Completed \<Rightarrow> tr @ tryBody w | _ \<Rightarrow> tr)))"

section \<open>Notions used to state the properties\<close>

text \<open>The last \<open>f\<close> decimal digits of \<open>n\<close>, with leading zeros.\<close>

fun lastDigits :: "nat \<Rightarrow> nat \<Rightarrow> string" where
  "lastDigits 0 n = []"
| "lastDigits (Suc f) n = lastDigits f (n div 10) @ [digitChar (n mod 10)]"

text \<open>
  A non-negative smallest-unit integer rendered with exactly \<open>d\<close> fractional digits: the
  digits of \<open>n div 10 ^ d\<close>, and for \<open>d > 0\<close> a point and the last \<open>d\<close> digits of \<open>n\<close>.
\<close>

definition renderFixed :: "nat \<Rightarrow> nat \<Rightarrow> string" where
  "renderFixed n d = natToDigits (n div 10 ^ d) @ (if d = 0 then [] else ''.'' @ lastDigits d n)"

text \<open>The number of characters after the decimal point of a string (0 without a point).\<close>

definition fractionLength :: "string \<Rightarrow> nat" where
  "fractionLength s = length (tl (dropWhile (\<lambda>c. c \<noteq> CHR ''.'') s))"

text \<open>
  A decimal string scaled by ten to the number of its fractional digits and read as an
  integer: the digits of the string without the point.
\<close>

definition scaledInteger :: "string \<Rightarrow> nat" where
  "scaledInteger s = digitsToNat (filter (\<lambda>c. c \<noteq> CHR ''.'') s)"

text \<open>
  What \<open>Math.random()\<close> returns: a finite value \<open>p / 10 ^ q\<close> in \<open>[0, 1)\<close>; a world is
  taken to supply such values only.
\<close>

fun inUnitInterval :: "number \<Rightarrow> bool" where
  "inUnitInterval (Fin p q) = (0 \<le> p \<and> p < 10 ^ q)"
| "inUnitInterval x = False"

definition randomOk :: "world \<Rightarrow> bool" where
  "randomOk w = (\<forall>n. inUnitInterval (mathRandom w n))"

text \<open>
  The events of iteration \<open>i\<close> and of the delay after it, when every earlier iteration drew
  twice from \<open>Math.random()\<close>: the amount uses draw \<open>2 * (i - 1)\<close>, the delay the next one.
\<close>

definition iterationEvents :: "world \<Rightarrow> inputs \<Rightarrow> nat \<Rightarrow> int \<Rightarrow> nat \<Rightarrow> event list" where
  "iterationEvents w v d vw i =
     (case nextAmount (minVal v) (maxVal v) d (mathRandom w (2 * (i - 1))) of
        Inl e \<Rightarrow> []
      | Inr (s, a) \<Rightarrow> LogNominal i s a # subscribe w i a vw)"

definition delayDraw :: "world \<Rightarrow> inputs \<Rightarrow> nat \<Rightarrow> number" where
  "delayDraw w v i = randomFloat (delayMin v) (delayMax v) (mathRandom w (2 * (i - 1) + 1))"

definition delayEvents :: "world \<Rightarrow> inputs \<Rightarrow> nat \<Rightarrow> event list" where
  "delayEvents w v i =
     [LogWaiting (delayDraw w v i), Sleep (math_floor (num_mul (delayDraw w v i) (Fin 1000 0)))]"

text \<open>Classes of events.\<close>

fun isGetNetwork :: "event \<Rightarrow> bool" where
  "isGetNetwork (GetNetwork k) = True"
| "isGetNetwork e = False"

fun isSleep :: "event \<Rightarrow> bool" where
  "isSleep (Sleep x) = True"
| "isSleep e = False"

fun isSubscribe :: "event \<Rightarrow> bool" where
  "isSubscribe (CallSubscribe a v) = True"
| "isSubscribe e = False"

fun isApprove :: "event \<Rightarrow> bool" where
  "isApprove (CallApprove a) = True"
| "isApprove e = False"

fun isNominal :: "event \<Rightarrow> bool" where
  "isNominal (LogNominal i s a) = True"
| "isNominal e = False"

text \<open>The calls to the token and to the contract.\<close>

fun isTokenCall :: "event \<Rightarrow> bool" where
  "isTokenCall CallDecimals = True"
| "isTokenCall CallAllowance = True"
| "isTokenCall (CallApprove a) = True"
| "isTokenCall (CallSubscribe a v) = True"
| "isTokenCall e = False"

text \<open>What the connection loop does.\<close>

fun isConnectEvent :: "event \<Rightarrow> bool" where
  "isConnectEvent (GetNetwork k) = True"
| "isConnectEvent (LogConnected k) = True"
| "isConnectEvent (WarnRpcFailed k) = True"
| "isConnectEvent ErrExceededAttempts = True"
| "isConnectEvent (LogRetrying x) = True"
| "isConnectEvent (Sleep x) = True"
| "isConnectEvent (Exit c) = True"
| "isConnectEvent e = False"

text \<open>What only the connection loop does.\<close>

fun isRpcEvent :: "event \<Rightarrow> bool" where
  "isRpcEvent (GetNetwork k) = True"
| "isRpcEvent (LogConnected k) = True"
| "isRpcEvent (WarnRpcFailed k) = True"
| "isRpcEvent ErrExceededAttempts = True"
| "isRpcEvent (LogRetrying x) = True"
| "isRpcEvent e = False"

text \<open>What the allowance check (lines 131 to 145) does.\<close>

fun isGuardEvent :: "event \<Rightarrow> bool" where
  "isGuardEvent CallAllowance = True"
| "isGuardEvent (LogAllowance a) = True"
| "isGuardEvent LogApproving = True"
| "isGuardEvent (CallApprove a) = True"
| "isGuardEvent LogApproveTx = True"
| "isGuardEvent WaitApprove = True"
| "isGuardEvent LogApproveConfirmed = True"
| "isGuardEvent LogAllowanceSufficient = True"
| "isGuardEvent e = False"

text \<open>What the submission loop (lines 150 to 180) does.\<close>

fun isLoopEvent :: "event \<Rightarrow> bool" where
  "isLoopEvent (LogNominal i s a) = True"
| "isLoopEvent (CallSubscribe a v) = True"
| "isLoopEvent LogTxSent = True"
| "isLoopEvent WaitSubscribe = True"
| "isLoopEvent LogConfirmed = True"
| "isLoopEvent ErrSubscribe = True"
| "isLoopEvent (LogWaiting x) = True"
| "isLoopEvent (Sleep x) = True"
| "isLoopEvent e = False"

text \<open>What only an iteration of the loop does.\<close>

fun isIterationEvent :: "event \<Rightarrow> bool" where
  "isIterationEvent (LogNominal i s a) = True"
| "isIterationEvent (CallSubscribe a v) = True"
| "isIterationEvent LogTxSent = True"
| "isIterationEvent WaitSubscribe = True"
| "isIterationEvent LogConfirmed = True"
| "isIterationEvent ErrSubscribe = True"
| "isIterationEvent (LogWaiting x) = True"
| "isIterationEvent e = False"

text \<open>How a run that reached the loop ends: with the last line, or in the \<open>catch\<close>.\<close>

definition ending :: "outcome \<Rightarrow> event list" where
  "ending out = (if out = Completed then [LogDone] else catchFatal out)"

text \<open>
  A world for the examples: the endpoint answers at the second attempt, the operator asks
  for amounts from 0.1 to 0.5, three iterations and delays of one second, the token has six
  decimals and no allowance yet, the second submission fails at its confirmation, and
  every \<open>Math.random()\<close> is 0.25.
\<close>

definition exampleWorld :: world where
  "exampleWorld =
     \<lparr> envComplete = True, SUBSCRIBE_VALUE = ''0'', ethersInstalled = True,
       isV6 = True, isV5 = False, rpcOk = (\<lambda>k. 2 \<le> k),
       minStr = ''0.1'', maxStr = ''0.5'', loopsStr = ''3'',
       delayMinStr = ''1'', delayMaxStr = ''1'',
       decimalsRaw = Some 6, allowanceRes = Some 0, approveRes = Confirmed,
       subscribeRes = (\<lambda>i. if i = 2 then WaitFails else Confirmed),
       mathRandom = (\<lambda>n. Fin 25 2) \<rparr>"

text \<open>A run that reaches the connection of line 63: the environment is complete and the
  ethers package has one of the two supported shapes.\<close>

definition ready :: "world \<Rightarrow> bool" where
  "ready w = (envComplete w \<and> ethersInstalled w \<and> (isV6 w \<or> isV5 w))"

text \<open>
  What a failed attempt \<open>k\<close> before the last one leaves in the trace: the call, the
  warning, the log and the wait of \<open>2000 * 2 ^ (k - 1)\<close> milliseconds.
\<close>

definition retryEvents :: "nat \<Rightarrow> event list" where
  "retryEvents k =
     [GetNetwork k, WarnRpcFailed k, LogRetrying (Fin (int (2000 * 2 ^ (k - 1))) 0),
      Sleep (Fin (int (2000 * 2 ^ (k - 1))) 0)]"

text \<open>
  The iterations and the sleeps of a list of events, in order: an iteration starts with its
  log line (line 160), and the payloads are left out.
\<close>

datatype beat = Iteration nat | Pause

fun beats :: "event list \<Rightarrow> beat list" where
  "beats [] = []"
| "beats (LogNominal i s a # es) = Iteration i # beats es"
| "beats (Sleep x # es) = Pause # beats es"
| "beats (e # es) = beats es"

section \<open>Digit strings\<close>

lemma below_ten: "n < 10 \<Longrightarrow> n \<in> set [0 ..< 10]"
  by simp

lemma upt_ten: "[0 ..< 10] = [0, 1, 2, 3, 4, 5, 6, 7, 8, 9]"
  by (simp add: upt_rec)

lemma digitVal_digitChar: "n < 10 \<Longrightarrow> digitVal (digitChar n) = n"
  using below_ten [of n] unfolding upt_ten by (auto simp add: digitVal_def digitChar_def)

lemma isDigit_digitChar: "n < 10 \<Longrightarrow> isDigit (digitChar n)"
  using below_ten [of n] unfolding upt_ten by (auto simp add: isDigit_def digitChar_def)

lemma digitsToNat_Nil [simp]: "digitsToNat [] = 0"
  by (simp add: digitsToNat_def)

lemma digitsToNat_snoc: "digitsToNat (s @ [c]) = 10 * digitsToNat s + digitVal c"
  by (simp add: digitsToNat_def)

lemma digitsToNat_append:
  "digitsToNat (s @ t) = digitsToNat s * 10 ^ length t + digitsToNat t"
proof (induction t rule: rev_induct)
  case Nil
  show ?case by simp
next
  case (snoc c t)
  have "digitsToNat (s @ t @ [c]) = 10 * digitsToNat (s @ t) + digitVal c"
    using digitsToNat_snoc [of "s @ t" c] by simp
  also have "\<dots> = 10 * (digitsToNat s * 10 ^ length t + digitsToNat t) + digitVal c"
    by (simp add: snoc.IH)
  also have "\<dots> = digitsToNat s * 10 ^ length (t @ [c]) + digitsToNat (t @ [c])"
    by (simp add: digitsToNat_snoc algebra_simps)
  finally show ?case by simp
qed

lemma digitsToNat_natToDigits: "digitsToNat (natToDigits n) = n"
proof (induction n rule: natToDigits.induct)
  case (1 n)
  show ?case
  proof (cases "n < 10")
    case True
    then show ?thesis
      by (simp add: natToDigits.simps [of n] digitsToNat_def digitVal_digitChar)
  next
    case False
    then have "digitsToNat (natToDigits n) = 10 * (n div 10) + n mod 10"
      using 1 by (simp add: natToDigits.simps [of n] digitsToNat_snoc digitVal_digitChar)
    then show ?thesis by simp
  qed
qed

lemma natToDigits_digits: "list_all isDigit (natToDigits n)"
proof (induction n rule: natToDigits.induct)
  case (1 n)
  show ?case
  proof (cases "n < 10")
    case True
    then show ?thesis by (simp add: natToDigits.simps [of n] isDigit_digitChar)
  next
    case False
    then show ?thesis using 1 by (simp add: natToDigits.simps [of n] isDigit_digitChar)
  qed
qed

lemma natToDigits_not_Nil: "natToDigits n \<noteq> []"
  by (cases "n < 10") (simp_all add: natToDigits.simps [of n])

lemma length_natToDigits_less: "n < 10 ^ length (natToDigits n)"
proof (induction n rule: natToDigits.induct)
  case (1 n)
  show ?case
  proof (cases "n < 10")
    case True
    then show ?thesis by (simp add: natToDigits.simps [of n])
  next
    case False
    then have "n div 10 < 10 ^ length (natToDigits (n div 10))" using 1 by simp
    then have "n < 10 * 10 ^ length (natToDigits (n div 10))" by simp
    then show ?thesis using False by (simp add: natToDigits.simps [of n])
  qed
qed

lemma length_natToDigits_ge: "0 < n \<Longrightarrow> 10 ^ (length (natToDigits n) - 1) \<le> n"
proof (induction n rule: natToDigits.induct)
  case (1 n)
  show ?case
  proof (cases "n < 10")
    case True
    then show ?thesis using 1(2) by (simp add: natToDigits.simps [of n])
  next
    case False
    then have pos: "0 < n div 10" by simp
    have "10 ^ (length (natToDigits (n div 10)) - 1) \<le> n div 10"
      using 1(1) [OF False pos] .
    then have "10 * 10 ^ (length (natToDigits (n div 10)) - 1) \<le> n" by simp
    moreover have "length (natToDigits (n div 10)) \<noteq> 0" using natToDigits_not_Nil by simp
    ultimately have "10 ^ length (natToDigits (n div 10)) \<le> n"
      by (cases "length (natToDigits (n div 10))") simp_all
    then show ?thesis using False by (simp add: natToDigits.simps [of n])
  qed
qed

lemma length_natToDigits_le: "n < 10 ^ L \<Longrightarrow> 0 < L \<Longrightarrow> length (natToDigits n) \<le> L"
proof (rule ccontr)
  assume lt: "n < 10 ^ L" and L: "0 < L" and "\<not> length (natToDigits n) \<le> L"
  then have gt: "L \<le> length (natToDigits n) - 1" by simp
  have npos: "0 < n"
  proof (rule ccontr)
    assume "\<not> 0 < n"
    then have "n = 0" by simp
    then have "length (natToDigits n) = 1" by (simp add: natToDigits.simps [of 0])
    with gt L show False by simp
  qed
  have "(10::nat) ^ L \<le> 10 ^ (length (natToDigits n) - 1)"
    using gt by (simp add: power_increasing)
  also have "\<dots> \<le> n" using length_natToDigits_ge [OF npos] .
  finally show False using lt by simp
qed

lemma digitsToNat_zeros [simp]: "digitsToNat (zeros n) = 0"
  by (induction n) (simp_all add: zeros_def digitsToNat_def digitVal_def)

lemma length_zeros [simp]: "length (zeros n) = n"
  by (simp add: zeros_def)

lemma zeros_digits: "list_all isDigit (zeros n)"
  by (simp add: zeros_def isDigit_def list_all_iff)

lemma digitsToNat_append_zeros: "digitsToNat (s @ zeros n) = digitsToNat s * 10 ^ n"
  by (simp add: digitsToNat_append)

lemma stripTrailingZeros_snoc:
  "stripTrailingZeros (s @ [c]) = (if c = CHR ''0'' then stripTrailingZeros s else s @ [c])"
  by (simp add: stripTrailingZeros_def)

lemma zeros_Suc_snoc: "zeros (Suc j) = zeros j @ ''0''"
  by (simp add: zeros_def replicate_append_same)

lemma stripTrailingZeros_decomp:
  "s = stripTrailingZeros s @ zeros (length s - length (stripTrailingZeros s))"
proof (induction s rule: rev_induct)
  case Nil
  show ?case by (simp add: stripTrailingZeros_def zeros_def)
next
  case (snoc c s)
  have le: "length (stripTrailingZeros s) \<le> length s"
    by (simp add: stripTrailingZeros_def length_dropWhile_le [of _ "rev s", simplified])
  show ?case
  proof (cases "c = CHR ''0''")
    case True
    have "Suc (length s) - length (stripTrailingZeros s)
          = Suc (length s - length (stripTrailingZeros s))"
      using le by simp
    then have "stripTrailingZeros s @ zeros (length (s @ [c]) - length (stripTrailingZeros s))
          = (stripTrailingZeros s @ zeros (length s - length (stripTrailingZeros s))) @ ''0''"
      by (simp add: zeros_Suc_snoc)
    also have "\<dots> = s @ [c]" using snoc.IH True by simp
    finally show ?thesis using True by (simp add: stripTrailingZeros_snoc)
  next
    case False
    then show ?thesis by (simp add: stripTrailingZeros_snoc zeros_def)
  qed
qed

lemma length_stripTrailingZeros: "length (stripTrailingZeros s) \<le> length s"
  by (simp add: stripTrailingZeros_def length_dropWhile_le [of _ "rev s", simplified])

lemma stripTrailingZeros_digits: "list_all isDigit s \<Longrightarrow> list_all isDigit (stripTrailingZeros s)"
  unfolding stripTrailingZeros_def list_all_iff by (auto dest: set_dropWhileD)

lemma length_lastDigits [simp]: "length (lastDigits f n) = f"
  by (induction f arbitrary: n) simp_all

lemma lastDigits_digits: "list_all isDigit (lastDigits f n)"
  by (induction f arbitrary: n) (simp_all add: isDigit_digitChar)

lemma digitsToNat_lastDigits: "digitsToNat (lastDigits f n) = n mod 10 ^ f"
proof (induction f arbitrary: n)
  case 0
  show ?case by simp
next
  case (Suc f)
  have "digitsToNat (lastDigits (Suc f) n) = 10 * ((n div 10) mod 10 ^ f) + n mod 10"
    by (simp add: digitsToNat_snoc Suc.IH digitVal_digitChar)
  also have "\<dots> = n mod 10 ^ Suc f"
    by (simp add: mod_mult2_eq)
  finally show ?case .
qed

lemma lastDigits_zero: "lastDigits f 0 = zeros f"
  by (induction f) (simp_all add: zeros_Suc_snoc digitChar_def, simp add: zeros_def)

lemma natToDigits_small: "n < 10 \<Longrightarrow> natToDigits n = [digitChar n]"
  by (simp add: natToDigits.simps [of n])

lemma natToDigits_large: "\<not> n < 10 \<Longrightarrow> natToDigits n = natToDigits (n div 10) @ [digitChar (n mod 10)]"
  by (simp add: natToDigits.simps [of n])

lemma natToDigits_split:
  "10 ^ f \<le> n \<Longrightarrow> natToDigits n = natToDigits (n div 10 ^ f) @ lastDigits f n"
proof (induction f arbitrary: n)
  case 0
  show ?case by simp
next
  case (Suc f)
  then have big: "\<not> n < 10"
    by (metis le_trans linorder_not_less one_le_numeral one_le_power power_Suc mult_le_mono2 mult.right_neutral)
  from Suc.prems have "10 ^ f \<le> n div 10" by (simp add: less_eq_div_iff_mult_less_eq)
  then have "natToDigits (n div 10) = natToDigits (n div 10 div 10 ^ f) @ lastDigits f (n div 10)"
    by (rule Suc.IH)
  moreover have "n div 10 div 10 ^ f = n div 10 ^ Suc f"
    by (simp add: div_mult2_eq)
  ultimately show ?case by (simp add: natToDigits_large [OF big])
qed

lemma padded_lastDigits:
  "n < 10 ^ f \<Longrightarrow> 0 < f \<Longrightarrow> zeros (f - length (natToDigits n)) @ natToDigits n = lastDigits f n"
proof (induction f arbitrary: n)
  case 0
  then show ?case by simp
next
  case (Suc f)
  show ?case
  proof (cases "n < 10")
    case True
    then have "n div 10 = 0" by simp
    then show ?thesis using True by (simp add: natToDigits_small lastDigits_zero)
  next
    case False
    with Suc.prems have fpos: "0 < f" by (cases f) simp_all
    from Suc.prems have small: "n div 10 < 10 ^ f" by (simp add: less_mult_imp_div_less mult.commute)
    have IH: "zeros (f - length (natToDigits (n div 10))) @ natToDigits (n div 10) = lastDigits f (n div 10)"
      using Suc.IH [OF small fpos] .
    show ?thesis using IH by (simp add: natToDigits_large [OF False])
  qed
qed

lemma fixedDigits_renderFixed: "fixedDigits n f = renderFixed n f"
proof (cases "f = 0")
  case True
  then show ?thesis by (simp add: fixedDigits_def renderFixed_def)
next
  case False
  then have fpos: "0 < f" by simp
  show ?thesis
  proof (cases "length (natToDigits n) \<le> f")
    case True
    have "n < 10 ^ length (natToDigits n)" by (rule length_natToDigits_less)
    also have "\<dots> \<le> 10 ^ f" using True by (simp add: power_increasing)
    finally have small: "n < 10 ^ f" .
    have pad: "zeros (f - length (natToDigits n)) @ natToDigits n = lastDigits f n"
      using padded_lastDigits [OF small fpos] .
    have "zeros (f + 1 - length (natToDigits n)) = CHR ''0'' # zeros (f - length (natToDigits n))"
      using True by (simp add: zeros_def Suc_diff_le)
    then show ?thesis
      using True small fpos pad
      by (simp add: fixedDigits_def renderFixed_def Let_def natToDigits_small digitChar_def)
  next
    case False
    then have "f < length (natToDigits n)" by simp
    have big: "10 ^ f \<le> n"
    proof (rule ccontr)
      assume "\<not> 10 ^ f \<le> n"
      then have "n < 10 ^ f" by simp
      from length_natToDigits_le [OF this fpos] False show False by simp
    qed
    have split: "natToDigits n = natToDigits (n div 10 ^ f) @ lastDigits f n"
      using natToDigits_split [OF big] .
    have len: "length (natToDigits n) - f = length (natToDigits (n div 10 ^ f))"
      by (subst split) simp
    have t: "take (length (natToDigits n) - f) (natToDigits n) = natToDigits (n div 10 ^ f)"
      unfolding len by (subst split) simp
    have d: "drop (length (natToDigits n) - f) (natToDigits n) = lastDigits f n"
      unfolding len by (subst split) simp
    show ?thesis using False fpos t d
      by (simp add: fixedDigits_def renderFixed_def Let_def)
  qed
qed

section \<open>Parsing fixed-point strings\<close>

lemma isDigit_not_point: "isDigit c \<Longrightarrow> c \<noteq> CHR ''.''"
  by (auto simp add: isDigit_def)

lemma isDigit_not_minus: "isDigit c \<Longrightarrow> c \<noteq> CHR ''-''"
  by (auto simp add: isDigit_def)

lemma digits_no_point: "list_all isDigit s \<Longrightarrow> CHR ''.'' \<notin> set s"
  by (auto simp add: list_all_iff dest: isDigit_not_point)

lemma takeWhile_digits_point:
  "list_all isDigit a \<Longrightarrow> takeWhile (\<lambda>c. c \<noteq> CHR ''.'') (a @ CHR ''.'' # b) = a"
  by (induction a) (auto dest: isDigit_not_point)

lemma dropWhile_digits_point:
  "list_all isDigit a \<Longrightarrow> dropWhile (\<lambda>c. c \<noteq> CHR ''.'') (a @ CHR ''.'' # b) = CHR ''.'' # b"
  by (induction a) (auto dest: isDigit_not_point)

lemma takeWhile_digits_all:
  "list_all isDigit a \<Longrightarrow> takeWhile (\<lambda>c. c \<noteq> CHR ''.'') a = a"
  by (induction a) (auto dest: isDigit_not_point)

lemma dropWhile_digits_all:
  "list_all isDigit a \<Longrightarrow> dropWhile (\<lambda>c. c \<noteq> CHR ''.'') a = []"
  by (induction a) (auto dest: isDigit_not_point)

lemma not_startsWith_minus:
  "a \<noteq> [] \<Longrightarrow> list_all isDigit a \<Longrightarrow> \<not> startsWith (a @ r) ''-''"
  by (cases a) (auto simp add: startsWith_def dest: isDigit_not_minus)

lemma no_bad_char:
  "list_all isDigit a \<Longrightarrow> list_all isDigit b \<Longrightarrow>
   \<not> list_ex (\<lambda>c. \<not> (isDigit c \<or> c = CHR ''.'')) (a @ CHR ''.'' # b)"
  by (auto simp add: list_ex_iff list_all_iff)

lemma parseUnits_point:
  assumes a: "a \<noteq> []" "list_all isDigit a" and b: "b \<noteq> []" "list_all isDigit b"
  shows "parseUnits (a @ CHR ''.'' # b) d =
           (if length (stripTrailingZeros b) > d then Inl FractionExceedsDecimals
            else Inr (int (digitsToNat a * 10 ^ d
                           + digitsToNat (stripTrailingZeros b) * 10 ^ (d - length (stripTrailingZeros b)))))"
proof -
  have neg: "\<not> startsWith (a @ CHR ''.'' # b) ''-''"
    using not_startsWith_minus [OF a] .
  have bad: "\<not> list_ex (\<lambda>c. \<not> (isDigit c \<or> c = CHR ''.'')) (a @ CHR ''.'' # b)"
    using no_bad_char a(2) b(2) .
  have ne: "a @ CHR ''.'' # b \<noteq> ''.''" using a(1) by (cases a) simp_all
  have tw: "takeWhile (\<lambda>c. c \<noteq> CHR ''.'') (a @ CHR ''.'' # b) = a"
    using takeWhile_digits_point a(2) .
  have dw: "dropWhile (\<lambda>c. c \<noteq> CHR ''.'') (a @ CHR ''.'' # b) = CHR ''.'' # b"
    using dropWhile_digits_point a(2) .
  have np: "CHR ''.'' \<notin> set b" using digits_no_point b(2) .
  show ?thesis
    unfolding parseUnits_def Let_def
    using neg bad ne np a(1) b(1)
    by (simp add: tw dw digitsToNat_append_zeros)
qed

lemma stripTrailingZeros_zero: "stripTrailingZeros ''0'' = []"
  by (simp add: stripTrailingZeros_def)

lemma parseUnits_whole:
  assumes a: "a \<noteq> []" "list_all isDigit a"
  shows "parseUnits a d = Inr (int (digitsToNat a * 10 ^ d))"
proof -
  have neg: "\<not> startsWith a ''-''"
    using not_startsWith_minus [OF a, of "[]"] by simp
  have bad: "\<not> list_ex (\<lambda>c. \<not> (isDigit c \<or> c = CHR ''.'')) a"
    using a(2) by (auto simp add: list_ex_iff list_all_iff)
  have ne: "a \<noteq> ''.''" using a(2) by (auto simp add: isDigit_def)
  have tw: "takeWhile (\<lambda>c. c \<noteq> CHR ''.'') a = a"
    using takeWhile_digits_all a(2) .
  have dw: "dropWhile (\<lambda>c. c \<noteq> CHR ''.'') a = []"
    using dropWhile_digits_all a(2) .
  show ?thesis
    unfolding parseUnits_def Let_def
    using neg bad ne a(1)
    by (simp add: tw dw stripTrailingZeros_zero)
qed

lemma digitsToNat_stripTrailingZeros:
  "digitsToNat (stripTrailingZeros b) * 10 ^ (length b - length (stripTrailingZeros b)) = digitsToNat b"
proof -
  have "digitsToNat b = digitsToNat (stripTrailingZeros b @ zeros (length b - length (stripTrailingZeros b)))"
    using stripTrailingZeros_decomp [of b] by simp
  then show ?thesis by (simp add: digitsToNat_append_zeros)
qed

lemma div_mod_scaled: "int (n div 10 ^ d) * 10 ^ d + int (n mod 10 ^ d) = int n"
proof -
  have "int (n div 10 ^ d * 10 ^ d + n mod 10 ^ d) = int n"
    by (simp only: div_mult_mod_eq)
  then show ?thesis by simp
qed

lemma parseUnits_renderFixed: "parseUnits (renderFixed n d) d = Inr (int n)"
proof (cases "d = 0")
  case True
  then show ?thesis
    using parseUnits_whole [OF natToDigits_not_Nil natToDigits_digits, of n 0]
    by (simp add: renderFixed_def digitsToNat_natToDigits)
next
  case False
  let ?b = "lastDigits d n"
  have bne: "?b \<noteq> []" using False by (cases d) simp_all
  have len: "length (stripTrailingZeros ?b) \<le> d"
    using length_stripTrailingZeros [of ?b] by simp
  have val: "digitsToNat (stripTrailingZeros ?b) * 10 ^ (d - length (stripTrailingZeros ?b)) = n mod 10 ^ d"
    using digitsToNat_stripTrailingZeros [of ?b] by (simp add: digitsToNat_lastDigits)
  have "parseUnits (natToDigits (n div 10 ^ d) @ CHR ''.'' # ?b) d
        = Inr (int (n div 10 ^ d * 10 ^ d + n mod 10 ^ d))"
    using parseUnits_point [OF natToDigits_not_Nil natToDigits_digits bne lastDigits_digits, of "n div 10 ^ d" d]
      len val
    by (simp add: digitsToNat_natToDigits)
  then show ?thesis using False by (simp add: renderFixed_def div_mod_scaled)
qed

lemma fractionLength_renderFixed: "fractionLength (renderFixed n d) = d"
proof (cases "d = 0")
  case True
  then show ?thesis
    by (simp add: fractionLength_def renderFixed_def dropWhile_digits_all [OF natToDigits_digits])
next
  case False
  then show ?thesis
    by (simp add: fractionLength_def renderFixed_def dropWhile_digits_point [OF natToDigits_digits])
qed

section \<open>Parsing the string of a number\<close>

lemma stripTrailingZeros_last:
  "stripTrailingZeros s \<noteq> [] \<Longrightarrow> last (stripTrailingZeros s) \<noteq> CHR ''0''"
proof (induction s rule: rev_induct)
  case Nil
  then show ?case by (simp add: stripTrailingZeros_def)
next
  case (snoc c s)
  then show ?case by (cases "c = CHR ''0''") (simp_all add: stripTrailingZeros_snoc)
qed

lemma stripTrailingZeros_id:
  "s \<noteq> [] \<Longrightarrow> last s \<noteq> CHR ''0'' \<Longrightarrow> stripTrailingZeros s = s"
  by (cases s rule: rev_cases) (simp_all add: stripTrailingZeros_snoc)

lemma digitsToNat_pos_stripped:
  assumes "0 < digitsToNat s"
  shows "stripTrailingZeros s \<noteq> []"
proof
  assume "stripTrailingZeros s = []"
  then have "s = zeros (length s)" using stripTrailingZeros_decomp [of s] by simp
  then have "digitsToNat s = 0" using digitsToNat_zeros [of "length s"] by simp
  then show False using assms by simp
qed

lemma isDigit_not_e: "isDigit c \<Longrightarrow> c \<noteq> CHR ''e''"
  by (auto simp add: isDigit_def)

lemma parseUnits_exponent:
  assumes "a \<noteq> []" "list_all isDigit a"
  shows "parseUnits (a @ r @ ''e'' @ t) d = Inl InvalidDecimal"
proof -
  have neg: "\<not> startsWith (a @ r @ ''e'' @ t) ''-''"
    using not_startsWith_minus [OF assms] .
  have "list_ex (\<lambda>c. \<not> (isDigit c \<or> c = CHR ''.'')) (a @ r @ ''e'' @ t)"
    by (simp add: list_ex_iff isDigit_def)
  then show ?thesis using neg assms(1) by (simp add: parseUnits_def Let_def)
qed

text \<open>
  When \<open>parseUnits\<close> accepts the string of a positive number \<open>a / 10 ^ k\<close>, the number is
  written without exponent, so it is below \<open>10 ^ 21\<close>, and the result is its exact multiple
  by \<open>10 ^ d\<close>.
\<close>

lemma posToString_parsed:
  assumes pos: "0 < a" and ok: "parseUnits (posToString a k) d = Inr M"
  shows "int a * 10 ^ d = M * 10 ^ k \<and> a < 10 ^ 21 * 10 ^ k"
proof -
  define ds where "ds = natToDigits a"
  define sig where "sig = stripTrailingZeros ds"
  define L where "L = length ds"
  define kk where "kk = length sig"
  define S where "S = digitsToNat sig"
  define t where "t = L - kk"
  have dsval: "digitsToNat ds = a" unfolding ds_def by (rule digitsToNat_natToDigits)
  have sig_ne: "sig \<noteq> []"
    unfolding sig_def using digitsToNat_pos_stripped [of ds] dsval pos by simp
  have sig_last: "last sig \<noteq> CHR ''0''"
    unfolding sig_def using stripTrailingZeros_last [of ds] sig_ne sig_def by simp
  have sig_digits: "list_all isDigit sig"
    unfolding sig_def ds_def by (rule stripTrailingZeros_digits [OF natToDigits_digits])
  have kkL: "kk \<le> L" unfolding kk_def L_def sig_def by (rule length_stripTrailingZeros)
  have kkpos: "0 < kk" unfolding kk_def using sig_ne by simp
  have decomp: "ds = sig @ zeros t"
    unfolding sig_def t_def L_def kk_def using stripTrailingZeros_decomp [of ds] by simp
  have aval: "a = S * 10 ^ t"
    using dsval decomp by (simp add: S_def digitsToNat_append_zeros)
  have Lt: "L = kk + t" unfolding t_def using kkL by simp
  have aL: "a < 10 ^ L" unfolding L_def ds_def by (rule length_natToDigits_less)
  let ?n = "int L - int k"
  have str: "posToString a k =
      (if int kk \<le> ?n \<and> ?n \<le> 21 then sig @ zeros (nat ?n - kk)
       else if 0 < ?n \<and> ?n \<le> 21 then take (nat ?n) sig @ ''.'' @ drop (nat ?n) sig
       else if - 6 < ?n \<and> ?n \<le> 0 then ''0.'' @ zeros (nat (- ?n)) @ sig
       else if kk = 1
         then sig @ ''e'' @ (if ?n - 1 < 0 then ''-'' else ''+'') @ natToDigits (nat \<bar>?n - 1\<bar>)
         else take 1 sig @ ''.'' @ drop 1 sig @ ''e''
               @ (if ?n - 1 < 0 then ''-'' else ''+'') @ natToDigits (nat \<bar>?n - 1\<bar>))"
    by (simp add: posToString_def Let_def ds_def [symmetric] sig_def [symmetric]
          kk_def [symmetric] L_def [symmetric])
  consider (whole) "int kk \<le> ?n" "?n \<le> 21"
    | (point) "\<not> int kk \<le> ?n" "0 < ?n" "?n \<le> 21"
    | (small) "- 6 < ?n" "?n \<le> 0"
    | (expo) "\<not> ?n \<le> 21 \<or> \<not> - 6 < ?n"
    by linarith
  then show ?thesis
  proof cases
    case whole
    define j where "j = nat ?n - kk"
    have s: "posToString a k = sig @ zeros j" using str whole by (simp add: j_def)
    have "parseUnits (sig @ zeros j) d = Inr (int (digitsToNat (sig @ zeros j) * 10 ^ d))"
      using sig_ne sig_digits zeros_digits [of j] by (intro parseUnits_whole) simp_all
    then have M: "M = int (S * 10 ^ j * 10 ^ d)"
      using ok s by (simp add: digitsToNat_append_zeros S_def)
    have tj: "t = j + k" unfolding j_def using whole Lt by linarith
    have "int a * 10 ^ d = M * 10 ^ k"
      unfolding M aval tj by (simp add: power_add)
    moreover have "L \<le> 21 + k" using whole(2) by linarith
    then have "(10::nat) ^ L \<le> 10 ^ (21 + k)" by (simp add: power_increasing)
    then have "a < 10 ^ 21 * 10 ^ k" using aL by (simp add: power_add)
    ultimately show ?thesis by simp
  next
    case point
    define n where "n = nat ?n"
    have npos: "0 < n" and nkk: "n < kk" unfolding n_def using point by linarith+
    define aa where "aa = take n sig"
    define b where "b = drop n sig"
    have s: "posToString a k = aa @ CHR ''.'' # b"
      using str point by (simp add: aa_def b_def n_def)
    have aa_ne: "aa \<noteq> []" using npos sig_ne by (simp add: aa_def)
    have b_ne: "b \<noteq> []" using nkk by (simp add: b_def kk_def)
    have aa_d: "list_all isDigit aa" using sig_digits by (auto simp add: aa_def list_all_iff dest: in_set_takeD)
    have b_d: "list_all isDigit b" using sig_digits by (auto simp add: b_def list_all_iff dest: in_set_dropD)
    have "last b = last sig" using nkk by (simp add: b_def kk_def)
    then have bs: "stripTrailingZeros b = b" using b_ne sig_last by (simp add: stripTrailingZeros_id)
    have lenb: "length b = kk - n" by (simp add: b_def kk_def)
    have p: "parseUnits (aa @ CHR ''.'' # b) d =
        (if length b > d then Inl FractionExceedsDecimals
         else Inr (int (digitsToNat aa * 10 ^ d + digitsToNat b * 10 ^ (d - length b))))"
      using parseUnits_point [OF aa_ne aa_d b_ne b_d, of d] by (simp add: bs)
    have fits: "length b \<le> d" using p ok s by (cases "length b > d") simp_all
    then have M: "M = int (digitsToNat aa * 10 ^ d + digitsToNat b * 10 ^ (d - length b))"
      using p ok s by simp
    have Sval: "S = digitsToNat aa * 10 ^ length b + digitsToNat b"
      unfolding S_def using digitsToNat_append [of aa b] by (simp add: aa_def b_def)
    have dsplit: "d = (d - length b) + length b" using fits by simp
    have "(digitsToNat aa * 10 ^ d + digitsToNat b * 10 ^ (d - length b)) * 10 ^ length b
          = S * 10 ^ d"
    proof -
      have "digitsToNat b * 10 ^ (d - length b) * 10 ^ length b = digitsToNat b * 10 ^ d"
        using fits by (simp add: power_add [symmetric])
      then show ?thesis unfolding Sval by (simp add: algebra_simps)
    qed
    then have Mb: "M * 10 ^ length b = int (S * 10 ^ d)" unfolding M
      by (metis of_nat_mult of_nat_numeral of_nat_power)
    have kval: "k = t + length b" using point Lt lenb nkk npos unfolding n_def by linarith
    have "M * 10 ^ k = M * 10 ^ length b * 10 ^ t" unfolding kval by (simp add: power_add)
    also have "\<dots> = int (S * 10 ^ d) * 10 ^ t" unfolding Mb ..
    also have "\<dots> = int a * 10 ^ d" unfolding aval by simp
    finally have "int a * 10 ^ d = M * 10 ^ k" by simp
    moreover have "L \<le> 21 + k" using point(3) by linarith
    then have "(10::nat) ^ L \<le> 10 ^ (21 + k)" by (simp add: power_increasing)
    then have "a < 10 ^ 21 * 10 ^ k" using aL by (simp add: power_add)
    ultimately show ?thesis by simp
  next
    case small
    define z where "z = nat (- ?n)"
    define b where "b = zeros z @ sig"
    have nk: "\<not> int kk \<le> ?n" using small kkpos by linarith
    have s: "posToString a k = ''0'' @ CHR ''.'' # b"
      using str small nk by (simp add: b_def z_def)
    have b_ne: "b \<noteq> []" using sig_ne by (simp add: b_def)
    have b_d: "list_all isDigit b" using sig_digits zeros_digits [of z] by (simp add: b_def)
    have "last b = last sig" using sig_ne by (simp add: b_def)
    then have bs: "stripTrailingZeros b = b" using b_ne sig_last by (simp add: stripTrailingZeros_id)
    have lenb: "length b = z + kk" by (simp add: b_def kk_def)
    have zd: "list_all isDigit ''0''" by (simp add: isDigit_def)
    have p: "parseUnits (''0'' @ CHR ''.'' # b) d =
        (if length b > d then Inl FractionExceedsDecimals
         else Inr (int (digitsToNat ''0'' * 10 ^ d + digitsToNat b * 10 ^ (d - length b))))"
      using parseUnits_point [OF _ zd b_ne b_d, of d] by (simp add: bs)
    have fits: "length b \<le> d" using p ok s by (cases "length b > d") simp_all
    have bval: "digitsToNat b = S" by (simp add: b_def S_def digitsToNat_append)
    have z0: "digitsToNat ''0'' = 0" by (simp add: digitsToNat_def digitVal_def)
    have M: "M = int (S * 10 ^ (d - length b))" using p ok s fits by (simp add: bval z0)
    have "S * 10 ^ (d - length b) * 10 ^ length b = S * 10 ^ d"
      using fits by (simp add: power_add [symmetric])
    then have Mb: "M * 10 ^ length b = int (S * 10 ^ d)" unfolding M
      by (metis of_nat_mult of_nat_numeral of_nat_power)
    have kval: "k = t + length b" using small Lt lenb unfolding z_def by linarith
    have "M * 10 ^ k = M * 10 ^ length b * 10 ^ t" unfolding kval by (simp add: power_add)
    also have "\<dots> = int (S * 10 ^ d) * 10 ^ t" unfolding Mb ..
    also have "\<dots> = int a * 10 ^ d" unfolding aval by simp
    finally have "int a * 10 ^ d = M * 10 ^ k" by simp
    moreover have "L \<le> 21 + k" using small(2) by linarith
    then have "(10::nat) ^ L \<le> 10 ^ (21 + k)" by (simp add: power_increasing)
    then have "a < 10 ^ 21 * 10 ^ k" using aL by (simp add: power_add)
    ultimately show ?thesis by simp
  next
    case expo
    have nk: "\<not> (int kk \<le> ?n \<and> ?n \<le> 21)" "\<not> (0 < ?n \<and> ?n \<le> 21)" "\<not> (- 6 < ?n \<and> ?n \<le> 0)"
      using expo by linarith+
    have t1: "list_all isDigit (take 1 sig)" "take 1 sig \<noteq> []"
      using sig_digits sig_ne by (auto simp add: list_all_iff dest: in_set_takeD)
    have e: "posToString a k =
       (if kk = 1
         then sig @ ''e'' @ (if ?n - 1 < 0 then ''-'' else ''+'') @ natToDigits (nat \<bar>?n - 1\<bar>)
         else take 1 sig @ ''.'' @ drop 1 sig @ ''e''
               @ (if ?n - 1 < 0 then ''-'' else ''+'') @ natToDigits (nat \<bar>?n - 1\<bar>))"
      unfolding str by (simp only: nk if_False)
    have "parseUnits (posToString a k) d = Inl InvalidDecimal"
    proof (cases "kk = 1")
      case True
      have "posToString a k = sig @ [] @ ''e''
          @ ((if ?n - 1 < 0 then ''-'' else ''+'') @ natToDigits (nat \<bar>?n - 1\<bar>))"
        unfolding e using True by (simp only: if_True append_Nil refl)
      then show ?thesis using parseUnits_exponent [OF sig_ne sig_digits] by (simp only:)
    next
      case False
      have "posToString a k = take 1 sig @ (''.'' @ drop 1 sig) @ ''e''
          @ ((if ?n - 1 < 0 then ''-'' else ''+'') @ natToDigits (nat \<bar>?n - 1\<bar>))"
        unfolding e using False by (simp only: if_False append_assoc refl)
      then show ?thesis using parseUnits_exponent [OF t1(2) t1(1)] by (simp only:)
    qed
    then show ?thesis using ok by simp
  qed
qed

section \<open>The structure of a run\<close>

lemma prefixed_pair [simp]: "prefixed es (tr, out) = (es @ tr, out)"
  by (simp add: prefixed_def)

lemma fst_prefixed [simp]: "fst (prefixed es r) = es @ fst r"
  by (cases r) simp

lemma snd_prefixed [simp]: "snd (prefixed es r) = snd r"
  by (cases r) simp

lemma connect_success:
  "attempt \<le> 8 \<Longrightarrow> rpcOk w attempt \<Longrightarrow>
   connect w attempt = ([GetNetwork attempt, LogConnected attempt], Completed)"
  by (simp add: connect.simps [of w attempt] MAX_ATTEMPTS_def)

lemma connect_exhausted:
  "\<not> rpcOk w 8 \<Longrightarrow>
   connect w 8 = ([GetNetwork 8, WarnRpcFailed 8, ErrExceededAttempts, Exit 1], Exited)"
  by (simp add: connect.simps [of w 8] MAX_ATTEMPTS_def)

lemma connect_retry_step:
  "attempt < 8 \<Longrightarrow> \<not> rpcOk w attempt \<Longrightarrow>
   connect w attempt =
     prefixed [GetNetwork attempt, WarnRpcFailed attempt,
               LogRetrying (Fin (int (2000 * 2 ^ (attempt - 1))) 0),
               Sleep (Fin (int (2000 * 2 ^ (attempt - 1))) 0)]
       (connect w (attempt + 1))"
  by (simp add: connect.simps [of w attempt] MAX_ATTEMPTS_def BASE_DELAY_MS_def Let_def)

lemma connect_beyond: "8 < attempt \<Longrightarrow> connect w attempt = ([], Completed)"
  by (simp add: connect.simps [of w attempt] MAX_ATTEMPTS_def)

lemma connect_head:
  "attempt \<le> 8 \<Longrightarrow> \<exists>rest. fst (connect w attempt) = GetNetwork attempt # rest"
proof -
  assume le: "attempt \<le> 8"
  show ?thesis
  proof (cases "rpcOk w attempt")
    case True
    then show ?thesis using le by (simp add: connect_success)
  next
    case False
    show ?thesis
    proof (cases "attempt = 8")
      case True
      then show ?thesis using False by (simp add: connect_exhausted)
    next
      case neq: False
      then have "attempt < 8" using le by simp
      then show ?thesis using False by (simp add: connect_retry_step)
    qed
  qed
qed

lemma connect_events: "list_all isConnectEvent (fst (connect w attempt))"
proof (induction w attempt rule: connect.induct)
  case (1 w attempt)
  show ?case
  proof (cases "attempt \<le> 8")
    case False
    then show ?thesis by (simp add: connect_beyond)
  next
    case le: True
    show ?thesis
    proof (cases "rpcOk w attempt")
      case True
      then show ?thesis using le by (simp add: connect_success)
    next
      case False
      show ?thesis
      proof (cases "attempt = 8")
        case True
        then show ?thesis using False by (simp add: connect_exhausted)
      next
        case neq: False
        then have lt: "attempt < 8" using le by simp
        have "list_all isConnectEvent (fst (connect w (attempt + 1)))"
          using 1 le False neq by (simp add: MAX_ATTEMPTS_def)
        then show ?thesis using lt False by (simp add: connect_retry_step)
      qed
    qed
  qed
qed

lemma connect_outcome: "snd (connect w attempt) = Completed \<or> snd (connect w attempt) = Exited"
proof (induction w attempt rule: connect.induct)
  case (1 w attempt)
  show ?case
  proof (cases "attempt \<le> 8")
    case False
    then show ?thesis by (simp add: connect_beyond)
  next
    case le: True
    show ?thesis
    proof (cases "rpcOk w attempt")
      case True
      then show ?thesis using le by (simp add: connect_success)
    next
      case False
      show ?thesis
      proof (cases "attempt = 8")
        case True
        then show ?thesis using False by (simp add: connect_exhausted)
      next
        case neq: False
        then have lt: "attempt < 8" using le by simp
        have "snd (connect w (attempt + 1)) = Completed \<or> snd (connect w (attempt + 1)) = Exited"
          using 1 le False neq by (simp add: MAX_ATTEMPTS_def)
        then show ?thesis using lt False by (simp add: connect_retry_step)
      qed
    qed
  qed
qed

lemma connect_attempts:
  "length (filter isGetNetwork (fst (connect w attempt))) \<le> 9 - attempt"
proof (induction w attempt rule: connect.induct)
  case (1 w attempt)
  show ?case
  proof (cases "attempt \<le> 8")
    case False
    then show ?thesis by (simp add: connect_beyond)
  next
    case le: True
    show ?thesis
    proof (cases "rpcOk w attempt")
      case True
      then show ?thesis using le by (simp add: connect_success)
    next
      case False
      show ?thesis
      proof (cases "attempt = 8")
        case True
        then show ?thesis using False by (simp add: connect_exhausted)
      next
        case neq: False
        then have lt: "attempt < 8" using le by simp
        have "length (filter isGetNetwork (fst (connect w (attempt + 1)))) \<le> 9 - (attempt + 1)"
          using 1 le False neq by (simp add: MAX_ATTEMPTS_def)
        then show ?thesis using lt False by (simp add: connect_retry_step)
      qed
    qed
  qed
qed

lemma connect_all_fail:
  "\<forall>k. attempt \<le> k \<and> k \<le> 8 \<longrightarrow> \<not> rpcOk w k \<Longrightarrow> attempt \<le> 8 \<Longrightarrow>
   snd (connect w attempt) = Exited \<and> last (fst (connect w attempt)) = Exit 1"
proof (induction w attempt rule: connect.induct)
  case (1 w attempt)
  have nok: "\<not> rpcOk w attempt" using 1(2,3) by simp
  show ?case
  proof (cases "attempt = 8")
    case True
    then show ?thesis using nok by (simp add: connect_exhausted)
  next
    case neq: False
    then have lt: "attempt < 8" using 1(3) by simp
    have "snd (connect w (attempt + 1)) = Exited \<and> last (fst (connect w (attempt + 1))) = Exit 1"
      using 1 nok neq lt by (simp add: MAX_ATTEMPTS_def)
    moreover have "fst (connect w (attempt + 1)) \<noteq> []"
      using connect_head [of "attempt + 1" w] lt by auto
    ultimately show ?thesis using lt nok by (simp add: connect_retry_step)
  qed
qed

lemma connect_backoff:
  "WarnRpcFailed k \<in> set (fst (connect w attempt)) \<Longrightarrow> k < 8 \<Longrightarrow>
   \<exists>pre post. fst (connect w attempt) =
      pre @ [WarnRpcFailed k, LogRetrying (Fin (int (2000 * 2 ^ (k - 1))) 0),
             Sleep (Fin (int (2000 * 2 ^ (k - 1))) 0), GetNetwork (k + 1)] @ post"
proof (induction w attempt rule: connect.induct)
  case (1 w attempt)
  show ?case
  proof (cases "attempt \<le> 8")
    case False
    then show ?thesis using 1(2) by (simp add: connect_beyond)
  next
    case le: True
    show ?thesis
    proof (cases "rpcOk w attempt")
      case True
      then show ?thesis using le 1(2) by (simp add: connect_success)
    next
      case False
      show ?thesis
      proof (cases "attempt = 8")
        case True
        then show ?thesis using False 1(2,3) by (simp add: connect_exhausted)
      next
        case neq: False
        then have lt: "attempt < 8" using le by simp
        let ?d = "Fin (int (2000 * 2 ^ (attempt - 1))) 0"
        have unfold: "fst (connect w attempt) =
            [GetNetwork attempt, WarnRpcFailed attempt, LogRetrying ?d, Sleep ?d]
              @ fst (connect w (attempt + 1))"
          using lt False by (simp add: connect_retry_step)
        obtain rest where rest: "fst (connect w (attempt + 1)) = GetNetwork (attempt + 1) # rest"
          using connect_head [of "attempt + 1" w] lt by auto
        show ?thesis
        proof (cases "k = attempt")
          case True
          have "fst (connect w attempt) =
              [GetNetwork attempt] @ [WarnRpcFailed k, LogRetrying (Fin (int (2000 * 2 ^ (k - 1))) 0),
                 Sleep (Fin (int (2000 * 2 ^ (k - 1))) 0), GetNetwork (k + 1)] @ rest"
            using unfold rest True by simp
          then show ?thesis by blast
        next
          case other: False
          then have "WarnRpcFailed k \<in> set (fst (connect w (attempt + 1)))"
            using 1(2) unfold by auto
          then obtain pre post where
            "fst (connect w (attempt + 1)) =
               pre @ [WarnRpcFailed k, LogRetrying (Fin (int (2000 * 2 ^ (k - 1))) 0),
                 Sleep (Fin (int (2000 * 2 ^ (k - 1))) 0), GetNetwork (k + 1)] @ post"
            using 1(1) le False neq 1(3) by (auto simp add: MAX_ATTEMPTS_def)
          then have "fst (connect w attempt) =
              ([GetNetwork attempt, WarnRpcFailed attempt, LogRetrying ?d, Sleep ?d] @ pre)
                @ [WarnRpcFailed k, LogRetrying (Fin (int (2000 * 2 ^ (k - 1))) 0),
                 Sleep (Fin (int (2000 * 2 ^ (k - 1))) 0), GetNetwork (k + 1)] @ post"
            using unfold by simp
          then show ?thesis by blast
        qed
      qed
    qed
  qed
qed


lemma connect_exit_last:
  "snd (connect w attempt) = Exited \<Longrightarrow> last (fst (connect w attempt)) = Exit 1"
proof (induction w attempt rule: connect.induct)
  case (1 w attempt)
  show ?case
  proof (cases "attempt \<le> 8")
    case False
    then show ?thesis using 1(2) by (simp add: connect_beyond)
  next
    case le: True
    show ?thesis
    proof (cases "rpcOk w attempt")
      case True
      then show ?thesis using le 1(2) by (simp add: connect_success)
    next
      case False
      show ?thesis
      proof (cases "attempt = 8")
        case True
        then show ?thesis using False by (simp add: connect_exhausted)
      next
        case neq: False
        then have lt: "attempt < 8" using le by simp
        have ex: "snd (connect w (attempt + 1)) = Exited"
          using 1(2) lt False by (simp add: connect_retry_step)
        have "last (fst (connect w (attempt + 1))) = Exit 1"
          using 1(1) le False neq ex by (simp add: MAX_ATTEMPTS_def)
        moreover have "fst (connect w (attempt + 1)) \<noteq> []"
          using connect_head [of "attempt + 1" w] lt by auto
        ultimately show ?thesis using lt False by (simp add: connect_retry_step)
      qed
    qed
  qed
qed

lemma body_cases [case_names notNumeric badRange valid]:
  obtains
    "someNaN (readInputs w)" "body w = (asked @ [ErrInvalidInput, Exit 1], Exited)"
  | "\<not> someNaN (readInputs w)" "rangeInvalid (readInputs w)"
    "body w = (asked @ [ErrInvalidRange, Exit 1], Exited)"
  | "\<not> someNaN (readInputs w)" "\<not> rangeInvalid (readInputs w)"
    "body w = prefixed asked (tokenPhase w (readInputs w))"
  by (cases "someNaN (readInputs w)"; cases "rangeInvalid (readInputs w)")
     (simp_all add: body_def Let_def)

lemma allowanceGuard_cases [case_names sufficient approved rejected unconfirmed]:
  obtains
    "\<not> allowTooSmall (isV6 w) al M" "allowanceGuard w M al = ([LogAllowanceSufficient], Completed)"
  | "allowTooSmall (isV6 w) al M" "approveRes w = Confirmed"
    "allowanceGuard w M al =
       ([LogApproving, CallApprove MaxUint256, LogApproveTx, WaitApprove, LogApproveConfirmed],
        Completed)"
  | "allowTooSmall (isV6 w) al M" "approveRes w = SendFails"
    "allowanceGuard w M al = ([LogApproving, CallApprove MaxUint256], Thrown CallFailed)"
  | "allowTooSmall (isV6 w) al M" "approveRes w = WaitFails"
    "allowanceGuard w M al =
       ([LogApproving, CallApprove MaxUint256, LogApproveTx, WaitApprove], Thrown CallFailed)"
  by (cases "allowTooSmall (isV6 w) al M"; cases "approveRes w")
     (simp_all add: allowanceGuard_def)

lemma submission_cases [case_names badValue looped aborted]:
  obtains e where "parseEther (SUBSCRIBE_VALUE w) = Inl e" "submission w v d = ([], Thrown e)"
  | vw ltr out where "parseEther (SUBSCRIBE_VALUE w) = Inr vw"
      "submitLoop w v d vw 1 0 = (ltr, out)" "out = Completed"
      "submission w v d = (LogSubscribeValue vw # ltr @ [LogDone], Completed)"
  | vw ltr out where "parseEther (SUBSCRIBE_VALUE w) = Inr vw"
      "submitLoop w v d vw 1 0 = (ltr, out)" "out \<noteq> Completed"
      "submission w v d = (LogSubscribeValue vw # ltr, out)"
proof (cases "parseEther (SUBSCRIBE_VALUE w)")
  case (Inl e)
  then have "submission w v d = ([], Thrown e)" by (simp add: submission_def)
  with Inl show ?thesis using that(1) by blast
next
  case (Inr vw)
  obtain ltr out where l: "submitLoop w v d vw 1 0 = (ltr, out)"
    by (cases "submitLoop w v d vw 1 0")
  show ?thesis
  proof (cases "out = Completed")
    case True
    then have "submission w v d = (LogSubscribeValue vw # ltr @ [LogDone], Completed)"
      using Inr l by (simp add: submission_def andThen_def)
    with Inr l True show ?thesis using that(2) by blast
  next
    case False
    then have "submission w v d = (LogSubscribeValue vw # ltr, out)"
      using Inr l by (cases out) (simp_all add: submission_def andThen_def)
    with Inr l False show ?thesis using that(3) by blast
  qed
qed

lemma run_cases [case_names early unreachable rejected noDecimals badMax noAllowance
    approveFailed badValue looped]:
  obtains
    ev where "run w = [ev, Exit 1]" "ev = ErrMissingEnv \<or> ev = ErrInstallEthers \<or> ev = ErrUnsupportedEthers"
  | "snd (connect w 1) = Exited" "run w = fst (connect w 1)"
  | ev where "snd (connect w 1) = Completed"
      "someNaN (readInputs w) \<or> rangeInvalid (readInputs w)"
      "ev = (if someNaN (readInputs w) then ErrInvalidInput else ErrInvalidRange)"
      "run w = fst (connect w 1) @ asked @ [ev, Exit 1]"
  | "snd (connect w 1) = Completed"
      "\<not> someNaN (readInputs w)" "\<not> rangeInvalid (readInputs w)" "decimalsRaw w = None"
      "run w = fst (connect w 1) @ asked @ [CallDecimals] @ [ErrFatal CallFailed, Exit 1]"
  | d e where "snd (connect w 1) = Completed"
      "\<not> someNaN (readInputs w)" "\<not> rangeInvalid (readInputs w)" "decimalsRaw w = Some d"
      "parseUnits (numberToString (maxVal (readInputs w))) d = Inl e"
      "run w = fst (connect w 1) @ asked @ [CallDecimals, LogDecimals d] @ [ErrFatal e, Exit 1]"
  | d M where "snd (connect w 1) = Completed"
      "\<not> someNaN (readInputs w)" "\<not> rangeInvalid (readInputs w)" "decimalsRaw w = Some d"
      "parseUnits (numberToString (maxVal (readInputs w))) d = Inr M" "allowanceRes w = None"
      "run w = fst (connect w 1) @ asked @ [CallDecimals, LogDecimals d, CallAllowance]
                 @ [ErrFatal CallFailed, Exit 1]"
  | d M al gtr where "snd (connect w 1) = Completed"
      "\<not> someNaN (readInputs w)" "\<not> rangeInvalid (readInputs w)" "decimalsRaw w = Some d"
      "parseUnits (numberToString (maxVal (readInputs w))) d = Inr M" "allowanceRes w = Some al"
      "allowTooSmall (isV6 w) al M" "approveRes w \<noteq> Confirmed"
      "allowanceGuard w M al = (gtr, Thrown CallFailed)"
      "run w = fst (connect w 1) @ asked
                 @ [CallDecimals, LogDecimals d, CallAllowance, LogAllowance al] @ gtr
                 @ [ErrFatal CallFailed, Exit 1]"
  | d M al gtr e where "snd (connect w 1) = Completed"
      "\<not> someNaN (readInputs w)" "\<not> rangeInvalid (readInputs w)" "decimalsRaw w = Some d"
      "parseUnits (numberToString (maxVal (readInputs w))) d = Inr M" "allowanceRes w = Some al"
      "allowanceGuard w M al = (gtr, Completed)"
      "parseEther (SUBSCRIBE_VALUE w) = Inl e"
      "run w = fst (connect w 1) @ asked
                 @ [CallDecimals, LogDecimals d, CallAllowance, LogAllowance al] @ gtr
                 @ [ErrFatal e, Exit 1]"
  | d M al gtr vw ltr out where "snd (connect w 1) = Completed"
      "\<not> someNaN (readInputs w)" "\<not> rangeInvalid (readInputs w)" "decimalsRaw w = Some d"
      "parseUnits (numberToString (maxVal (readInputs w))) d = Inr M" "allowanceRes w = Some al"
      "allowanceGuard w M al = (gtr, Completed)"
      "parseEther (SUBSCRIBE_VALUE w) = Inr vw"
      "submitLoop w (readInputs w) d vw 1 0 = (ltr, out)"
      "run w = fst (connect w 1) @ asked
                 @ [CallDecimals, LogDecimals d, CallAllowance, LogAllowance al] @ gtr
                 @ LogSubscribeValue vw # ltr @ ending out"
proof -
  note R = that
  show ?thesis
  proof (cases "envComplete w \<and> ethersInstalled w \<and> (isV6 w \<or> isV5 w)")
  case False
  then have "run w = [ErrMissingEnv, Exit 1] \<or> run w = [ErrInstallEthers, Exit 1]
             \<or> run w = [ErrUnsupportedEthers, Exit 1]"
    by (auto simp add: run_def)
  then show ?thesis using R(1) by blast
next
  case ready: True
  have e: "envComplete w" "ethersInstalled w" "isV6 w \<or> isV5 w" using ready by blast+
  have r: "run w = (case snd (connect w 1) of Completed \<Rightarrow> fst (connect w 1) @ tryBody w
                    | _ \<Rightarrow> fst (connect w 1))"
    unfolding run_def using e by (auto simp add: split_beta simp del: One_nat_def)
  show ?thesis
  proof (cases "snd (connect w 1) = Completed")
    case False
    then have "snd (connect w 1) = Exited" using connect_outcome [of w 1] by blast
    then show ?thesis using R(2) r by simp
  next
    case sc: True
    then have rc: "run w = fst (connect w 1) @ tryBody w" using r by simp
    have fc: "fst (connect w 1) = fst (connect w 1)" by (rule refl)
    show ?thesis
    proof (cases rule: body_cases [where w = w])
      case notNumeric
      then have "run w = fst (connect w 1) @ asked @ [ErrInvalidInput, Exit 1]"
        using rc fc by (simp add: tryBody_def)
      then show ?thesis using R(3) sc notNumeric(1) by simp
    next
      case badRange
      then have "run w = fst (connect w 1) @ asked @ [ErrInvalidRange, Exit 1]"
        using rc fc by (simp add: tryBody_def)
      then show ?thesis using R(3) sc badRange(1,2) by simp
    next
      case valid
      let ?v = "readInputs w"
      have tb: "tryBody w = asked @ fst (tokenPhase w ?v) @ catchFatal (snd (tokenPhase w ?v))"
        using valid(3) by (cases "tokenPhase w ?v") (simp add: tryBody_def)
      show ?thesis
      proof (cases "decimalsRaw w")
        case None
        then have "tokenPhase w ?v = ([CallDecimals], Thrown CallFailed)"
          by (simp add: tokenPhase_def)
        then show ?thesis using R(4) sc valid(1,2) None rc fc tb by simp
      next
        case (Some d)
        show ?thesis
        proof (cases "parseUnits (numberToString (maxVal ?v)) d")
          case (Inl e)
          then have "tokenPhase w ?v = ([CallDecimals, LogDecimals d], Thrown e)"
            using Some by (simp add: tokenPhase_def)
          then show ?thesis using R(5) sc valid(1,2) Some Inl rc fc tb by simp
        next
          case (Inr M)
          show ?thesis
          proof (cases "allowanceRes w")
            case None
            then have "tokenPhase w ?v
                = ([CallDecimals, LogDecimals d, CallAllowance], Thrown CallFailed)"
              using Some Inr by (simp add: tokenPhase_def)
            then show ?thesis using R(6) sc valid(1,2) Some Inr None rc fc tb by simp
          next
            case al: (Some al)
            have tp: "tokenPhase w ?v =
                prefixed [CallDecimals, LogDecimals d, CallAllowance, LogAllowance al]
                  (andThen (allowanceGuard w M al) (submission w ?v d))"
              using Some Inr al by (simp add: tokenPhase_def)
            have failed: ?thesis
              if g: "allowanceGuard w M al = (gtr, Thrown CallFailed)"
                and small: "allowTooSmall (isV6 w) al M" and nc: "approveRes w \<noteq> Confirmed"
              for gtr
            proof -
              have "tokenPhase w ?v =
                  ([CallDecimals, LogDecimals d, CallAllowance, LogAllowance al] @ gtr,
                   Thrown CallFailed)"
                using tp g by (simp add: andThen_def)
              then have "run w = fst (connect w 1) @ asked
                 @ [CallDecimals, LogDecimals d, CallAllowance, LogAllowance al] @ gtr
                 @ [ErrFatal CallFailed, Exit 1]"
                using rc fc tb by simp
              then show ?thesis using R(7) sc valid(1,2) Some Inr al small nc g by blast
            qed
            have passed: ?thesis if g: "allowanceGuard w M al = (gtr, Completed)" for gtr
            proof (cases rule: submission_cases [where w = w and v = "?v" and d = d])
              case (badValue e)
              then have "tokenPhase w ?v =
                  ([CallDecimals, LogDecimals d, CallAllowance, LogAllowance al] @ gtr, Thrown e)"
                using tp g by (simp add: andThen_def)
              then have "run w = fst (connect w 1) @ asked
                 @ [CallDecimals, LogDecimals d, CallAllowance, LogAllowance al] @ gtr
                 @ [ErrFatal e, Exit 1]"
                using rc fc tb by simp
              then show ?thesis using R(8) sc valid(1,2) Some Inr al g badValue(1) by blast
            next
              case (looped vw ltr out)
              then have "tokenPhase w ?v =
                  ([CallDecimals, LogDecimals d, CallAllowance, LogAllowance al] @ gtr
                     @ LogSubscribeValue vw # ltr @ [LogDone], Completed)"
                using tp g by (simp add: andThen_def)
              then have "run w = fst (connect w 1) @ asked
                 @ [CallDecimals, LogDecimals d, CallAllowance, LogAllowance al] @ gtr
                 @ LogSubscribeValue vw # ltr @ ending out"
                using rc fc tb looped(3) by (simp add: ending_def)
              then show ?thesis using R(9) sc valid(1,2) Some Inr al g looped(1,2) by blast
            next
              case (aborted vw ltr out)
              then have "tokenPhase w ?v =
                  ([CallDecimals, LogDecimals d, CallAllowance, LogAllowance al] @ gtr
                     @ LogSubscribeValue vw # ltr, out)"
                using tp g by (simp add: andThen_def)
              then have "run w = fst (connect w 1) @ asked
                 @ [CallDecimals, LogDecimals d, CallAllowance, LogAllowance al] @ gtr
                 @ LogSubscribeValue vw # ltr @ ending out"
                using rc fc tb aborted(3) by (simp add: ending_def)
              then show ?thesis using R(9) sc valid(1,2) Some Inr al g aborted(1,2) by blast
            qed
            show ?thesis
            proof (cases rule: allowanceGuard_cases [where w = w and al = al and M = M])
              case sufficient
              then show ?thesis using passed by blast
            next
              case approved
              then show ?thesis using passed by blast
            next
              case rejected
              then show ?thesis using failed by simp
            next
              case unconfirmed
              then show ?thesis using failed by simp
            qed
          qed
        qed
      qed
    qed
  qed
qed
qed

lemma submitLoop_stop:
  "\<not> int i \<le> loopCount (loops v) \<Longrightarrow> submitLoop w v d vw i rc = ([], Completed)"
  by (simp add: submitLoop.simps [of w v d vw i rc])

lemma submitLoop_throw:
  "int i \<le> loopCount (loops v) \<Longrightarrow>
   nextAmount (minVal v) (maxVal v) d (mathRandom w rc) = Inl e \<Longrightarrow>
   submitLoop w v d vw i rc = ([], Thrown e)"
  by (simp add: submitLoop.simps [of w v d vw i rc])

lemma submitLoop_step:
  "int i < loopCount (loops v) \<Longrightarrow>
   nextAmount (minVal v) (maxVal v) d (mathRandom w rc) = Inr (s, a) \<Longrightarrow>
   submitLoop w v d vw i rc =
     prefixed (LogNominal i s a # subscribe w i a vw
               @ [LogWaiting (randomFloat (delayMin v) (delayMax v) (mathRandom w (rc + 1))),
                  Sleep (math_floor (num_mul
                    (randomFloat (delayMin v) (delayMax v) (mathRandom w (rc + 1))) (Fin 1000 0)))])
       (submitLoop w v d vw (i + 1) (rc + 2))"
  by (cases "submitLoop w v d vw (i + 1) (rc + 2)")
     (simp add: submitLoop.simps [of w v d vw i rc] Let_def)

lemma submitLoop_last:
  "int i = loopCount (loops v) \<Longrightarrow>
   nextAmount (minVal v) (maxVal v) d (mathRandom w rc) = Inr (s, a) \<Longrightarrow>
   submitLoop w v d vw i rc = (LogNominal i s a # subscribe w i a vw, Completed)"
proof -
  assume eq: "int i = loopCount (loops v)"
    and ok: "nextAmount (minVal v) (maxVal v) d (mathRandom w rc) = Inr (s, a)"
  have "\<not> int (i + 1) \<le> loopCount (loops v)" using eq by simp
  then have "submitLoop w v d vw (i + 1) (rc + 1) = ([], Completed)"
    by (rule submitLoop_stop)
  then show ?thesis using eq ok by (simp add: submitLoop.simps [of w v d vw i rc])
qed

lemma submitLoop_induct [case_names stop throw step last]:
  assumes stop: "\<And>i rc. \<not> int i \<le> loopCount (loops v) \<Longrightarrow> P i rc ([], Completed)"
    and throw: "\<And>i rc e. int i \<le> loopCount (loops v) \<Longrightarrow>
        nextAmount (minVal v) (maxVal v) d (mathRandom w rc) = Inl e \<Longrightarrow> P i rc ([], Thrown e)"
    and step: "\<And>i rc s a. int i < loopCount (loops v) \<Longrightarrow>
        nextAmount (minVal v) (maxVal v) d (mathRandom w rc) = Inr (s, a) \<Longrightarrow>
        P (i + 1) (rc + 2) (submitLoop w v d vw (i + 1) (rc + 2)) \<Longrightarrow>
        P i rc (prefixed (LogNominal i s a # subscribe w i a vw
               @ [LogWaiting (randomFloat (delayMin v) (delayMax v) (mathRandom w (rc + 1))),
                  Sleep (math_floor (num_mul
                    (randomFloat (delayMin v) (delayMax v) (mathRandom w (rc + 1))) (Fin 1000 0)))])
             (submitLoop w v d vw (i + 1) (rc + 2)))"
    and last: "\<And>i rc s a. int i = loopCount (loops v) \<Longrightarrow>
        nextAmount (minVal v) (maxVal v) d (mathRandom w rc) = Inr (s, a) \<Longrightarrow>
        P i rc (LogNominal i s a # subscribe w i a vw, Completed)"
  shows "P i rc (submitLoop w v d vw i rc)"
proof (induction "nat (loopCount (loops v) + 1 - int i)" arbitrary: i rc)
  case 0
  then have "\<not> int i \<le> loopCount (loops v)" by simp
  then show ?case using stop by (simp add: submitLoop_stop)
next
  case (Suc n)
  then have le: "int i \<le> loopCount (loops v)" by simp
  show ?case
  proof (cases "nextAmount (minVal v) (maxVal v) d (mathRandom w rc)")
    case (Inl e)
    then show ?thesis using throw le by (simp add: submitLoop_throw)
  next
    case (Inr p)
    obtain s a where p: "p = (s, a)" by (cases p)
    show ?thesis
    proof (cases "int i < loopCount (loops v)")
      case True
      have "n = nat (loopCount (loops v) + 1 - int (i + 1))" using Suc(2) by simp
      then have "P (i + 1) (rc + 2) (submitLoop w v d vw (i + 1) (rc + 2))"
        by (rule Suc(1))
      then show ?thesis
        using step [OF True] Inr p by (simp add: submitLoop_step [OF True])
    next
      case False
      then have eq: "int i = loopCount (loops v)" using le by simp
      show ?thesis using last [OF eq] Inr p by (simp add: submitLoop_last [OF eq])
    qed
  qed
qed

lemma subscribe_events: "list_all isLoopEvent (subscribe w i a vw)"
  by (cases "subscribeRes w i") (simp_all add: subscribe_def)

lemma subscribe_count: "length (filter isSubscribe (subscribe w i a vw)) = 1"
  by (cases "subscribeRes w i") (simp_all add: subscribe_def)

lemma subscribe_no_sleep: "filter isSleep (subscribe w i a vw) = []"
  by (cases "subscribeRes w i") (simp_all add: subscribe_def)

lemma subscribe_head: "\<exists>rest. subscribe w i a vw = CallSubscribe a vw # rest"
  by (cases "subscribeRes w i") (simp_all add: subscribe_def)

lemma submitLoop_events: "list_all isLoopEvent (fst (submitLoop w v d vw i rc))"
  by (induction rule: submitLoop_induct [where w = w and v = v and d = d and vw = vw])
     (simp_all add: subscribe_events)

lemma submitLoop_outcome: "snd (submitLoop w v d vw i rc) \<noteq> Exited"
  by (induction rule: submitLoop_induct [where w = w and v = v and d = d and vw = vw])
     simp_all

lemma filter_none: "list_all P tr \<Longrightarrow> (\<And>e. P e \<Longrightarrow> \<not> Q e) \<Longrightarrow> filter Q tr = []"
  by (induction tr) auto

lemma not_in_class: "list_all P tr \<Longrightarrow> \<not> P e \<Longrightarrow> e \<notin> set tr"
  by (auto simp add: list_all_iff)

lemma list_all_mono: "list_all P tr \<Longrightarrow> (\<And>e. P e \<Longrightarrow> Q e) \<Longrightarrow> list_all Q tr"
  by (auto simp add: list_all_iff)

lemma guard_events: "list_all isGuardEvent (fst (allowanceGuard w M al))"
  by (cases rule: allowanceGuard_cases [where w = w and al = al and M = M]) simp_all

lemma loop_not_rpc: "isLoopEvent e \<Longrightarrow> \<not> isRpcEvent e"
  by (cases e) simp_all

lemma guard_not_rpc: "isGuardEvent e \<Longrightarrow> \<not> isRpcEvent e"
  by (cases e) simp_all

lemma ending_not_rpc: "list_all (\<lambda>e. \<not> isRpcEvent e) (ending out)"
  by (cases out) (simp_all add: ending_def)

text \<open>A run is the connection loop (or nothing) followed by events of other kinds.\<close>

lemma run_split:
  "\<exists>rest. (run w = rest \<or> run w = fst (connect w 1) @ rest)
          \<and> list_all (\<lambda>e. \<not> isRpcEvent e) rest"
proof (cases rule: run_cases [where w = w])
  case (early ev)
  then have "list_all (\<lambda>e. \<not> isRpcEvent e) (run w)" by auto
  then show ?thesis by blast
next
  case unreachable
  then have "run w = fst (connect w 1) @ []" by simp
  moreover have "list_all (\<lambda>e. \<not> isRpcEvent e) []" by simp
  ultimately show ?thesis by blast
next
  case (rejected ev)
  have "list_all (\<lambda>e. \<not> isRpcEvent e) (asked @ [ev, Exit 1])"
    using rejected(3) by (simp add: asked_def)
  then show ?thesis using rejected(4) by blast
next
  case noDecimals
  have "list_all (\<lambda>e. \<not> isRpcEvent e) (asked @ [CallDecimals] @ [ErrFatal CallFailed, Exit 1])"
    by (simp add: asked_def)
  then show ?thesis using noDecimals(5) by blast
next
  case (badMax d e)
  have "list_all (\<lambda>e. \<not> isRpcEvent e) (asked @ [CallDecimals, LogDecimals d] @ [ErrFatal e, Exit 1])"
    by (simp add: asked_def)
  then show ?thesis using badMax(6) by blast
next
  case (noAllowance d M)
  have "list_all (\<lambda>e. \<not> isRpcEvent e)
     (asked @ [CallDecimals, LogDecimals d, CallAllowance] @ [ErrFatal CallFailed, Exit 1])"
    by (simp add: asked_def)
  then show ?thesis using noAllowance(7) by blast
next
  case (approveFailed d M al gtr)
  have "list_all (\<lambda>e. \<not> isRpcEvent e) gtr"
    using guard_events [of w M al] approveFailed(9) guard_not_rpc
    by (simp add: list_all_iff)
  then have "list_all (\<lambda>e. \<not> isRpcEvent e)
     (asked @ [CallDecimals, LogDecimals d, CallAllowance, LogAllowance al] @ gtr
        @ [ErrFatal CallFailed, Exit 1])"
    by (simp add: asked_def)
  then show ?thesis using approveFailed(10) by blast
next
  case (badValue d M al gtr e)
  have "list_all (\<lambda>e. \<not> isRpcEvent e) gtr"
    using guard_events [of w M al] badValue(7) guard_not_rpc
    by (simp add: list_all_iff)
  then have "list_all (\<lambda>e. \<not> isRpcEvent e)
     (asked @ [CallDecimals, LogDecimals d, CallAllowance, LogAllowance al] @ gtr
        @ [ErrFatal e, Exit 1])"
    by (simp add: asked_def)
  then show ?thesis using badValue(9) by blast
next
  case (looped d M al gtr vw ltr out)
  have g: "list_all (\<lambda>e. \<not> isRpcEvent e) gtr"
    using guard_events [of w M al] looped(7) guard_not_rpc
    by (simp add: list_all_iff)
  have l: "list_all (\<lambda>e. \<not> isRpcEvent e) ltr"
    using submitLoop_events [of w "readInputs w" d vw 1 0] looped(9) loop_not_rpc
    by (simp add: list_all_iff)
  have "list_all (\<lambda>e. \<not> isRpcEvent e)
     (asked @ [CallDecimals, LogDecimals d, CallAllowance, LogAllowance al] @ gtr
        @ LogSubscribeValue vw # ltr @ ending out)"
    using g l ending_not_rpc [of out] by (simp add: asked_def)
  then show ?thesis using looped(10) by blast
qed

section \<open>The submission loop\<close>

lemma loop_induct [case_names stop throw step last]:
  assumes "\<And>i rc. \<not> int i \<le> loopCount (loops v) \<Longrightarrow> P i rc"
    and "\<And>i rc e. int i \<le> loopCount (loops v) \<Longrightarrow>
        nextAmount (minVal v) (maxVal v) d (mathRandom w rc) = Inl e \<Longrightarrow> P i rc"
    and "\<And>i rc s a. int i < loopCount (loops v) \<Longrightarrow>
        nextAmount (minVal v) (maxVal v) d (mathRandom w rc) = Inr (s, a) \<Longrightarrow>
        P (i + 1) (rc + 2) \<Longrightarrow> P i rc"
    and "\<And>i rc s a. int i = loopCount (loops v) \<Longrightarrow>
        nextAmount (minVal v) (maxVal v) d (mathRandom w rc) = Inr (s, a) \<Longrightarrow> P i rc"
  shows "P i rc"
proof (induction "nat (loopCount (loops v) + 1 - int i)" arbitrary: i rc)
  case (0 i rc)
  then have "\<not> int i \<le> loopCount (loops v)" by simp
  then show ?case by (rule assms(1))
next
  case (Suc n i rc)
  then have le: "int i \<le> loopCount (loops v)" by simp
  show ?case
  proof (cases "nextAmount (minVal v) (maxVal v) d (mathRandom w rc)")
    case (Inl e)
    with le show ?thesis by (rule assms(2))
  next
    case (Inr p)
    obtain s a where p: "p = (s, a)" by (cases p)
    show ?thesis
    proof (cases "int i < loopCount (loops v)")
      case True
      have "n = nat (loopCount (loops v) + 1 - int (i + 1))" using Suc(2) by simp
      then have "P (i + 1) (rc + 2)" by (rule Suc(1))
      with True show ?thesis using Inr p assms(3) by blast
    next
      case False
      then have "int i = loopCount (loops v)" using le by simp
      then show ?thesis using Inr p assms(4) by blast
    qed
  qed
qed

text \<open>A loop that runs to its end has made one submission per remaining iteration.\<close>

lemma loop_count:
  "snd (submitLoop w v d vw i rc) = Completed \<longrightarrow>
   length (filter isSubscribe (fst (submitLoop w v d vw i rc)))
     = nat (loopCount (loops v) + 1 - int i)"
proof (induction i rc rule: loop_induct [where w = w and v = v and d = d])
  case (stop i rc)
  then show ?case by (simp add: submitLoop_stop)
next
  case (throw i rc e)
  then show ?case by (simp add: submitLoop_throw)
next
  case (step i rc s a)
  have "nat (loopCount (loops v) + 1 - int i) = Suc (nat (loopCount (loops v) + 1 - int (i + 1)))"
    using step(1) by simp
  then show ?case using step(3) by (simp add: submitLoop_step [OF step(1,2)] subscribe_count)
next
  case (last i rc s a)
  then show ?case by (simp add: submitLoop_last [OF last(1,2)] subscribe_count)
qed

text \<open>When every draw yields an amount, the loop runs to its end.\<close>

lemma loop_completes:
  assumes "\<And>n. \<exists>s a. nextAmount (minVal v) (maxVal v) d (mathRandom w n) = Inr (s, a)"
  shows "snd (submitLoop w v d vw i rc) = Completed"
proof (induction i rc rule: loop_induct [where w = w and v = v and d = d])
  case (stop i rc)
  then show ?case by (simp add: submitLoop_stop)
next
  case (throw i rc e)
  then show ?case using assms [of rc] by simp
next
  case (step i rc s a)
  then show ?case by (simp add: submitLoop_step [OF step(1,2)])
next
  case (last i rc s a)
  then show ?case by (simp add: submitLoop_last [OF last(1,2)])
qed

lemma subscribe_errors:
  "length (filter (\<lambda>e. e = ErrSubscribe) (subscribe w i a vw))
     = (if subscribeRes w i \<noteq> Confirmed then 1 else 0)"
  by (cases "subscribeRes w i") (simp_all add: subscribe_def)

text \<open>Every failed submission of a completed loop is reported, and nothing else is.\<close>

lemma loop_errors:
  "snd (submitLoop w v d vw i rc) = Completed \<longrightarrow>
   length (filter (\<lambda>e. e = ErrSubscribe) (fst (submitLoop w v d vw i rc)))
     = length (filter (\<lambda>j. subscribeRes w j \<noteq> Confirmed)
         [i ..< nat (loopCount (loops v) + 1)])"
proof (induction i rc rule: loop_induct [where w = w and v = v and d = d])
  case (stop i rc)
  then have "\<not> i < nat (loopCount (loops v) + 1)" by linarith
  then show ?case using stop by (simp add: submitLoop_stop)
next
  case (throw i rc e)
  then show ?case by (simp add: submitLoop_throw)
next
  case (step i rc s a)
  have "i < nat (loopCount (loops v) + 1)" using step(1) by linarith
  then have "[i ..< nat (loopCount (loops v) + 1)] = i # [i + 1 ..< nat (loopCount (loops v) + 1)]"
    by (simp add: upt_rec)
  then show ?case using step(3)
    by (simp add: submitLoop_step [OF step(1,2)] subscribe_errors)
next
  case (last i rc s a)
  then have "nat (loopCount (loops v) + 1) = Suc i" by simp
  then have "[i ..< nat (loopCount (loops v) + 1)] = [i]" by simp
  then show ?case by (simp add: submitLoop_last [OF last(1,2)] subscribe_errors)
qed

text \<open>The loop as a list: iterations separated by delays, with no delay after the last.\<close>

lemma loop_trace:
  "1 \<le> i \<and> int i \<le> loopCount (loops v) \<and> rc = 2 * (i - 1)
     \<and> snd (submitLoop w v d vw i rc) = Completed \<longrightarrow>
   fst (submitLoop w v d vw i rc)
     = concat (map (\<lambda>j. iterationEvents w v d vw j @ delayEvents w v j)
                [i ..< nat (loopCount (loops v))])
       @ iterationEvents w v d vw (nat (loopCount (loops v)))"
proof (induction i rc rule: loop_induct [where w = w and v = v and d = d])
  case (stop i rc)
  then show ?case by simp
next
  case (throw i rc e)
  then show ?case by (simp add: submitLoop_throw)
next
  case (step i rc s a)
  show ?case
  proof (intro impI)
    assume h: "1 \<le> i \<and> int i \<le> loopCount (loops v) \<and> rc = 2 * (i - 1)
       \<and> snd (submitLoop w v d vw i rc) = Completed"
    have rc: "rc = 2 * (i - 1)" and i1: "1 \<le> i" using h by simp_all
    have next_rc: "rc + 2 = 2 * (i + 1 - 1)" using rc i1 by simp
    have lt: "i < nat (loopCount (loops v))" using step(1) by linarith
    have c0: "snd (submitLoop w v d vw i rc) = Completed" using h by blast
    have c: "snd (submitLoop w v d vw (i + 1) (rc + 2)) = Completed"
      using c0 by (simp add: submitLoop_step [OF step(1,2)])
    have IH: "fst (submitLoop w v d vw (i + 1) (rc + 2))
        = concat (map (\<lambda>j. iterationEvents w v d vw j @ delayEvents w v j)
                   [i + 1 ..< nat (loopCount (loops v))])
          @ iterationEvents w v d vw (nat (loopCount (loops v)))"
      using step(3) step(1) next_rc c by simp
    have it: "iterationEvents w v d vw i = LogNominal i s a # subscribe w i a vw"
      using step(2) rc by (simp add: iterationEvents_def)
    have de: "delayEvents w v i =
        [LogWaiting (randomFloat (delayMin v) (delayMax v) (mathRandom w (rc + 1))),
         Sleep (math_floor (num_mul (randomFloat (delayMin v) (delayMax v)
           (mathRandom w (rc + 1))) (Fin 1000 0)))]"
      using rc by (simp add: delayEvents_def delayDraw_def)
    have "[i ..< nat (loopCount (loops v))] = i # [i + 1 ..< nat (loopCount (loops v))]"
      using lt by (simp add: upt_rec)
    then show "fst (submitLoop w v d vw i rc)
        = concat (map (\<lambda>j. iterationEvents w v d vw j @ delayEvents w v j)
                   [i ..< nat (loopCount (loops v))])
          @ iterationEvents w v d vw (nat (loopCount (loops v)))"
      using IH it de by (simp add: submitLoop_step [OF step(1,2)])
  qed
next
  case (last i rc s a)
  show ?case
  proof (intro impI)
    assume h: "1 \<le> i \<and> int i \<le> loopCount (loops v) \<and> rc = 2 * (i - 1)
       \<and> snd (submitLoop w v d vw i rc) = Completed"
    have n: "nat (loopCount (loops v)) = i" using last(1) by simp
    have "iterationEvents w v d vw i = LogNominal i s a # subscribe w i a vw"
      using last(2) h by (simp add: iterationEvents_def)
    then show "fst (submitLoop w v d vw i rc)
        = concat (map (\<lambda>j. iterationEvents w v d vw j @ delayEvents w v j)
                   [i ..< nat (loopCount (loops v))])
          @ iterationEvents w v d vw (nat (loopCount (loops v)))"
      using n by (simp add: submitLoop_last [OF last(1,2)])
  qed
qed

lemma subscribe_not_nominal: "LogNominal j s b \<notin> set (subscribe w i a vw)"
  by (cases "subscribeRes w i") (simp_all add: subscribe_def)

lemma subscribe_amount: "CallSubscribe b x \<in> set (subscribe w i a vw) \<Longrightarrow> b = a \<and> x = vw"
  by (cases "subscribeRes w i") (simp_all add: subscribe_def)

text \<open>What the loop logs are amounts that \<open>nextAmount\<close> produced.\<close>

lemma loop_amounts:
  "LogNominal j s a \<in> set (fst (submitLoop w v d vw i rc)) \<longrightarrow>
   (\<exists>n. nextAmount (minVal v) (maxVal v) d (mathRandom w n) = Inr (s, a))"
proof (induction i rc rule: loop_induct [where w = w and v = v and d = d])
  case (stop i rc)
  then show ?case by (simp add: submitLoop_stop)
next
  case (throw i rc e)
  then show ?case by (simp add: submitLoop_throw)
next
  case (step i rc s' a')
  then show ?case
    by (auto simp add: submitLoop_step [OF step(1,2)] subscribe_not_nominal)
next
  case (last i rc s' a')
  then show ?case
    by (auto simp add: submitLoop_last [OF last(1,2)] subscribe_not_nominal)
qed

text \<open>What the loop submits is an amount it logged, with the fixed payment value.\<close>

lemma loop_submitted:
  "CallSubscribe a x \<in> set (fst (submitLoop w v d vw i rc)) \<longrightarrow>
   x = vw \<and> (\<exists>j s. LogNominal j s a \<in> set (fst (submitLoop w v d vw i rc)))"
proof (induction i rc rule: loop_induct [where w = w and v = v and d = d])
  case (stop i rc)
  then show ?case by (simp add: submitLoop_stop)
next
  case (throw i rc e)
  then show ?case by (simp add: submitLoop_throw)
next
  case (step i rc s' a')
  show ?case
  proof (intro impI)
    assume "CallSubscribe a x \<in> set (fst (submitLoop w v d vw i rc))"
    then have "CallSubscribe a x \<in> set (subscribe w i a' vw)
        \<or> CallSubscribe a x \<in> set (fst (submitLoop w v d vw (i + 1) (rc + 2)))"
      by (simp add: submitLoop_step [OF step(1,2)])
    then show "x = vw \<and> (\<exists>j s. LogNominal j s a \<in> set (fst (submitLoop w v d vw i rc)))"
    proof
      assume "CallSubscribe a x \<in> set (subscribe w i a' vw)"
      then have "a = a' \<and> x = vw" by (rule subscribe_amount)
      moreover have "LogNominal i s' a' \<in> set (fst (submitLoop w v d vw i rc))"
        by (simp add: submitLoop_step [OF step(1,2)])
      ultimately show ?thesis by blast
    next
      assume "CallSubscribe a x \<in> set (fst (submitLoop w v d vw (i + 1) (rc + 2)))"
      then obtain j s where "x = vw"
        "LogNominal j s a \<in> set (fst (submitLoop w v d vw (i + 1) (rc + 2)))"
        using step(3) by blast
      then have "x = vw" "LogNominal j s a \<in> set (fst (submitLoop w v d vw i rc))"
        by (simp_all add: submitLoop_step [OF step(1,2)])
      then show ?thesis by blast
    qed
  qed
next
  case (last i rc s' a')
  show ?case
  proof (intro impI)
    assume "CallSubscribe a x \<in> set (fst (submitLoop w v d vw i rc))"
    then have "CallSubscribe a x \<in> set (subscribe w i a' vw)"
      by (simp add: submitLoop_last [OF last(1,2)])
    then have "a = a' \<and> x = vw" by (rule subscribe_amount)
    moreover have "LogNominal i s' a' \<in> set (fst (submitLoop w v d vw i rc))"
      by (simp add: submitLoop_last [OF last(1,2)])
    ultimately show "x = vw \<and> (\<exists>j s. LogNominal j s a \<in> set (fst (submitLoop w v d vw i rc)))"
      by blast
  qed
qed

lemma connect_not_iteration:
  "isConnectEvent e \<Longrightarrow> \<not> isIterationEvent e \<and> e \<noteq> LogDone \<and> e \<noteq> LogSubscribeValue x"
  by (cases e) simp_all

lemma guard_not_iteration:
  "isGuardEvent e \<Longrightarrow> \<not> isIterationEvent e \<and> e \<noteq> LogDone \<and> e \<noteq> LogSubscribeValue x"
  by (cases e) simp_all

lemma connect_before_loop:
  "list_all (\<lambda>e. \<not> isIterationEvent e \<and> e \<noteq> LogDone \<and> (\<forall>x. e \<noteq> LogSubscribeValue x))
     (fst (connect w k))"
  using connect_events [of w k] connect_not_iteration by (simp add: list_all_iff)

lemma guard_before_loop:
  "list_all (\<lambda>e. \<not> isIterationEvent e \<and> e \<noteq> LogDone \<and> (\<forall>x. e \<noteq> LogSubscribeValue x))
     (fst (allowanceGuard w M al))"
  using guard_events [of w M al] guard_not_iteration by (simp add: list_all_iff)

text \<open>
  A run that shows the payment value, an event of an iteration or the completion line has
  reached the loop: it is a prefix without such events, the payment value, the events of
  the loop and the ending.
\<close>

lemma reached_loop:
  assumes "(\<exists>x. LogSubscribeValue x \<in> set (run w)) \<or> LogDone \<in> set (run w)
           \<or> list_ex isIterationEvent (run w)"
  obtains pre d M vw ltr out where
    "run w = pre @ LogSubscribeValue vw # ltr @ ending out"
    "list_all (\<lambda>e. \<not> isIterationEvent e \<and> e \<noteq> LogDone \<and> (\<forall>x. e \<noteq> LogSubscribeValue x)) pre"
    "submitLoop w (readInputs w) d vw 1 0 = (ltr, out)"
    "decimalsRaw w = Some d"
    "\<not> someNaN (readInputs w)" "\<not> rangeInvalid (readInputs w)"
    "parseUnits (numberToString (maxVal (readInputs w))) d = Inr M"
proof -
  let ?quiet = "\<lambda>e. \<not> isIterationEvent e \<and> e \<noteq> LogDone \<and> (\<forall>x. e \<noteq> LogSubscribeValue x)"
  have away: "False" if "list_all ?quiet (run w)"
    using that assms by (auto simp add: list_all_iff list_ex_iff)
  have c: "list_all ?quiet (fst (connect w 1))" by (rule connect_before_loop)
  show ?thesis
  proof (cases rule: run_cases [where w = w])
    case (early ev)
    then have "list_all ?quiet (run w)" by auto
    then show ?thesis using away by blast
  next
    case unreachable
    then show ?thesis using away c by simp
  next
    case (rejected ev)
    then have "list_all ?quiet (run w)" using c by (simp add: asked_def)
    then show ?thesis using away by blast
  next
    case noDecimals
    then have "list_all ?quiet (run w)" using c by (simp add: asked_def)
    then show ?thesis using away by blast
  next
    case (badMax d e)
    then have "list_all ?quiet (run w)" using c by (simp add: asked_def)
    then show ?thesis using away by blast
  next
    case (noAllowance d M)
    then have "list_all ?quiet (run w)" using c by (simp add: asked_def)
    then show ?thesis using away by blast
  next
    case (approveFailed d M al gtr)
    have "list_all ?quiet gtr" using guard_before_loop [of w M al] approveFailed(9) by simp
    then have "list_all ?quiet (run w)" using c approveFailed(10) by (simp add: asked_def)
    then show ?thesis using away by blast
  next
    case (badValue d M al gtr e)
    have "list_all ?quiet gtr" using guard_before_loop [of w M al] badValue(7) by simp
    then have "list_all ?quiet (run w)" using c badValue(9) by (simp add: asked_def)
    then show ?thesis using away by blast
  next
    case (looped d M al gtr vw ltr out)
    let ?pre = "fst (connect w 1) @ asked
                 @ [CallDecimals, LogDecimals d, CallAllowance, LogAllowance al] @ gtr"
    have "list_all ?quiet gtr" using guard_before_loop [of w M al] looped(7) by simp
    then have q: "list_all ?quiet ?pre" using c by (simp add: asked_def)
    have "run w = ?pre @ LogSubscribeValue vw # ltr @ ending out" using looped(10) by simp
    then show ?thesis using that q looped(9,4,2,3,5) by blast
  qed
qed

lemma ending_cases:
  "out \<noteq> Exited \<Longrightarrow> ending out = [LogDone] \<and> out = Completed
     \<or> (\<exists>e. ending out = [ErrFatal e, Exit 1] \<and> out = Thrown e)"
  by (cases out) (simp_all add: ending_def)

lemma loop_no_done: "LogDone \<notin> set (fst (submitLoop w v d vw i rc))"
  using submitLoop_events [of w v d vw i rc] by (rule not_in_class) simp

text \<open>A run that reaches its completion line has made exactly \<open>loops\<close> submissions.\<close>

lemma completed_run:
  assumes "LogDone \<in> set (run w)"
  obtains pre d M vw ltr where
    "run w = pre @ LogSubscribeValue vw # ltr @ [LogDone]"
    "list_all (\<lambda>e. \<not> isIterationEvent e \<and> e \<noteq> LogDone \<and> (\<forall>x. e \<noteq> LogSubscribeValue x)) pre"
    "submitLoop w (readInputs w) d vw 1 0 = (ltr, Completed)"
    "decimalsRaw w = Some d"
    "\<not> someNaN (readInputs w)" "\<not> rangeInvalid (readInputs w)"
    "parseUnits (numberToString (maxVal (readInputs w))) d = Inr M"
proof -
  obtain pre d M vw ltr out where r:
    "run w = pre @ LogSubscribeValue vw # ltr @ ending out"
    "list_all (\<lambda>e. \<not> isIterationEvent e \<and> e \<noteq> LogDone \<and> (\<forall>x. e \<noteq> LogSubscribeValue x)) pre"
    "submitLoop w (readInputs w) d vw 1 0 = (ltr, out)"
    "decimalsRaw w = Some d"
    "\<not> someNaN (readInputs w)" "\<not> rangeInvalid (readInputs w)"
    "parseUnits (numberToString (maxVal (readInputs w))) d = Inr M"
  proof -
    have h: "(\<exists>x. LogSubscribeValue x \<in> set (run w)) \<or> LogDone \<in> set (run w)
           \<or> list_ex isIterationEvent (run w)"
      using assms by simp
    show ?thesis by (rule reached_loop [OF h]) (rule that)
  qed
  have ne: "out \<noteq> Exited" using submitLoop_outcome [of w "readInputs w" d vw 1 0] r(3) by simp
  have n1: "LogDone \<notin> set pre" using r(2) by (auto simp add: list_all_iff)
  have n2: "LogDone \<notin> set ltr"
    using loop_no_done [of w "readInputs w" d vw 1 0] r(3) by simp
  have "LogDone \<in> set (pre @ LogSubscribeValue vw # ltr @ ending out)"
    using assms unfolding r(1) .
  then have "LogDone \<in> set (ending out)" using n1 n2 by simp
  then have oc: "out = Completed" and en: "ending out = [LogDone]"
    using ending_cases [OF ne] by auto
  have f1: "run w = pre @ LogSubscribeValue vw # ltr @ [LogDone]" using r(1) en by simp
  have f3: "submitLoop w (readInputs w) d vw 1 0 = (ltr, Completed)" using r(3) oc by simp
  show ?thesis by (rule that [OF f1 r(2) f3 r(4) r(5) r(6) r(7)])
qed

lemma quiet_no_subscribe:
  "list_all (\<lambda>e. \<not> isIterationEvent e \<and> e \<noteq> LogDone \<and> (\<forall>x. e \<noteq> LogSubscribeValue x)) pre \<Longrightarrow>
   filter isSubscribe pre = [] \<and> filter (\<lambda>e. e = ErrSubscribe) pre = []"
proof (induction pre)
  case Nil
  show ?case by simp
next
  case (Cons e pre)
  then show ?case by (cases e) simp_all
qed

lemma completed_count:
  assumes "LogDone \<in> set (run w)"
  shows "length (filter isSubscribe (run w)) = nat (loopCount (loops (readInputs w)))
         \<and> length (filter (\<lambda>e. e = ErrSubscribe) (run w))
             = length (filter (\<lambda>i. subscribeRes w i \<noteq> Confirmed)
                 [1 ..< nat (loopCount (loops (readInputs w)) + 1)])
         \<and> last (run w) = LogDone"
proof -
  obtain pre d M vw ltr where r:
    "run w = pre @ LogSubscribeValue vw # ltr @ [LogDone]"
    "list_all (\<lambda>e. \<not> isIterationEvent e \<and> e \<noteq> LogDone \<and> (\<forall>x. e \<noteq> LogSubscribeValue x)) pre"
    "submitLoop w (readInputs w) d vw 1 0 = (ltr, Completed)"
    by (rule completed_run [OF assms]) blast
  have q: "filter isSubscribe pre = []" "filter (\<lambda>e. e = ErrSubscribe) pre = []"
    using quiet_no_subscribe [OF r(2)] by simp_all
  have n: "length (filter isSubscribe ltr) = nat (loopCount (loops (readInputs w)))"
    using loop_count [of w "readInputs w" d vw 1 0] r(3) by simp
  have e: "length (filter (\<lambda>e. e = ErrSubscribe) ltr)
      = length (filter (\<lambda>i. subscribeRes w i \<noteq> Confirmed)
          [1 ..< nat (loopCount (loops (readInputs w)) + 1)])"
    using loop_errors [of w "readInputs w" d vw 1 0] r(3) by simp
  show ?thesis using r(1) q n e by simp
qed

section \<open>Evaluation of concrete inputs\<close>

lemma replicate_numeral:
  "replicate (numeral n) x = x # replicate (pred_numeral n) x"
  by (simp only: numeral_eq_Suc [of n] replicate.simps)

lemma lastDigits_numeral:
  "lastDigits (numeral f) n = lastDigits (pred_numeral f) (n div 10) @ [digitChar (n mod 10)]"
  by (simp only: numeral_eq_Suc [of f] lastDigits.simps)

lemmas js_eval =
  parseFloat_def parseInt_def trimStart_def isWhiteSpace_def startsWith_def isDigit_def
  exponentPart_def digitsToNat_def digitVal_def roundScaled_def fixedDigits_def
  natToDigits.simps digitChar_def zeros_def posToString_def stripTrailingZeros_def
  parseUnits_def parseEther_def randomFloat_def num_sub_def zero_def isNaN_def
  bigToString_def replicate_numeral Let_def

lemmas run_eval =
  run_def tryBody_def body_def asked_def tokenPhase_def submission_def andThen_def
  prefixed_def submitLoop.simps connect.simps subscribe_def nextAmount_def
  allowanceGuard_def allowTooSmall_def readInputs_def someNaN_def rangeInvalid_def
  MAX_ATTEMPTS_def BASE_DELAY_MS_def

lemma run_exampleWorld:
  "run exampleWorld =
     [GetNetwork 1, WarnRpcFailed 1, LogRetrying (Fin 2000 0), Sleep (Fin 2000 0),
      GetNetwork 2, LogConnected 2, LogAddresses, Ask 1, Ask 2, Ask 3, Ask 4, Ask 5,
      CallDecimals, LogDecimals 6, CallAllowance, LogAllowance 0,
      LogApproving, CallApprove MaxUint256, LogApproveTx, WaitApprove, LogApproveConfirmed,
      LogSubscribeValue 0,
      LogNominal 1 ''0.200000'' 200000, CallSubscribe 200000 0, LogTxSent, WaitSubscribe,
      LogConfirmed, LogWaiting (Fin 100 2), Sleep (Fin 1000 0),
      LogNominal 2 ''0.200000'' 200000, CallSubscribe 200000 0, LogTxSent, WaitSubscribe,
      ErrSubscribe, LogWaiting (Fin 100 2), Sleep (Fin 1000 0),
      LogNominal 3 ''0.200000'' 200000, CallSubscribe 200000 0, LogTxSent, WaitSubscribe,
      LogConfirmed, LogDone]"
  by (simp add: exampleWorld_def run_eval js_eval)

section \<open>The amount generator (claim C1)\<close>

lemma roundScaled_nearest:
  "2 * roundScaled a k f * 10 ^ k \<le> 2 * a * 10 ^ f + 10 ^ k
   \<and> 2 * a * 10 ^ f < 2 * roundScaled a k f * 10 ^ k + 10 ^ k"
proof -
  let ?N = "2 * a * 10 ^ f + (10::nat) ^ k"
  let ?D = "2 * (10::nat) ^ k"
  have Dpos: "0 < ?D" by simp
  have eq: "?N div ?D * ?D + ?N mod ?D = ?N" by (rule div_mult_mod_eq)
  have lt: "?N mod ?D < ?D" using Dpos by (rule mod_less_divisor)
  have r: "roundScaled a k f = ?N div ?D" by (simp add: roundScaled_def)
  have le: "?N div ?D * ?D \<le> ?N" using eq by linarith
  have up: "?N < ?N div ?D * ?D + ?D" using eq lt by linarith
  have c1: "2 * roundScaled a k f * 10 ^ k = ?N div ?D * ?D" unfolding r by simp
  show ?thesis unfolding c1 using le up by linarith
qed

lemma toFixed_fixed:
  assumes "d \<le> 100" "0 \<le> m" "m < 10 ^ 21 * 10 ^ k"
  shows "toFixed (Fin m k) d = Inr (renderFixed (roundScaled (nat m) k d) d)"
proof -
  have "nat m < 10 ^ 21 * 10 ^ k"
    using assms(2,3) by (simp add: nat_less_iff)
  then show ?thesis
    using assms(1,2) by (simp add: Let_def fixedDigits_renderFixed)
qed

lemma parseUnits_Infinity: "parseUnits ''Infinity'' d = Inl InvalidDecimal"
  by (simp add: parseUnits_def startsWith_def isDigit_def Let_def)

lemma numberToString_parsed:
  assumes "0 < m" and "parseUnits (numberToString (Fin m k)) d = Inr M"
  shows "m * 10 ^ d = M * 10 ^ k \<and> m < 10 ^ 21 * 10 ^ k"
proof -
  have "parseUnits (posToString (nat m) k) d = Inr M" using assms by simp
  then have "int (nat m) * 10 ^ d = M * 10 ^ k \<and> nat m < 10 ^ 21 * 10 ^ k"
    using posToString_parsed [of "nat m" k d M] assms(1) by simp
  then show ?thesis using assms(1) by (simp add: nat_less_iff)
qed

text \<open>What the validation and the parse of the maximum leave of the two amounts.\<close>

lemma valid_amounts:
  assumes "\<not> someNaN v" and "\<not> rangeInvalid v"
    and "parseUnits (numberToString (maxVal v)) d = Inr M"
  obtains m1 k1 m2 k2 where "minVal v = Fin m1 k1" "maxVal v = Fin m2 k2"
    "0 < m1" "0 < m2" "m1 * 10 ^ k2 \<le> m2 * 10 ^ k1"
    "m2 < 10 ^ 21 * 10 ^ k2" "m2 * 10 ^ d = M * 10 ^ k2"
proof -
  have nn: "minVal v \<noteq> NaN" "maxVal v \<noteq> NaN"
    using assms(1) by (simp_all add: someNaN_def isNaN_def)
  have r: "\<not> num_le (minVal v) zero" "\<not> num_le (maxVal v) zero"
    "\<not> num_lt (maxVal v) (minVal v)"
    using assms(2) by (simp_all add: rangeInvalid_def)
  obtain m2 k2 where mx: "maxVal v = Fin m2 k2"
    using nn(2) r(2) assms(3) by (cases "maxVal v") (simp_all add: zero_def parseUnits_Infinity)
  obtain m1 k1 where mn: "minVal v = Fin m1 k1"
    using nn(1) r(1) r(3) mx by (cases "minVal v") (simp_all add: zero_def)
  have p1: "0 < m1" using r(1) mn by (simp add: zero_def)
  have p2: "0 < m2" using r(2) mx by (simp add: zero_def)
  have le: "m1 * 10 ^ k2 \<le> m2 * 10 ^ k1" using r(3) mn mx by simp
  have "m2 * 10 ^ d = M * 10 ^ k2 \<and> m2 < 10 ^ 21 * 10 ^ k2"
    using numberToString_parsed [OF p2] assms(3) mx by simp
  then show ?thesis using that mn mx p1 p2 le by blast
qed

text \<open>
  The draw \<open>min + r * (max - min)\<close> for \<open>0 < min \<le> max < 10 ^ 21\<close> and \<open>0 \<le> r \<le> 1\<close>: a
  finite value \<open>X / 10 ^ S\<close> with \<open>min \<le> X / 10 ^ S \<le> max\<close>.
\<close>

lemma draw_bounds:
  fixes m1 m2 p :: int
  assumes "0 < m1" and le: "m1 * 10 ^ k2 \<le> m2 * 10 ^ k1" and "m2 < 10 ^ 21 * 10 ^ k2"
    and "0 \<le> p" and "p \<le> 10 ^ q"
  obtains X S where "randomFloat (Fin m1 k1) (Fin m2 k2) (Fin p q) = Fin X S"
    "0 < X" "X < 10 ^ 21 * 10 ^ S" "X * 10 ^ k2 \<le> m2 * 10 ^ S" "m1 * 10 ^ S \<le> X * 10 ^ k1"
proof -
  define A where "A = m1 * 10 ^ k2"
  define B where "B = m2 * 10 ^ k1"
  define D where "D = B - A"
  define Q where "Q = q + (k2 + k1)"
  define X where "X = p * D * 10 ^ k1 + m1 * 10 ^ Q"
  define S where "S = Q + k1"
  have Dnn: "0 \<le> D" using le by (simp add: D_def A_def B_def)
  have rf: "randomFloat (Fin m1 k1) (Fin m2 k2) (Fin p q) = Fin X S"
    by (simp add: randomFloat_def num_sub_def X_def S_def Q_def D_def A_def B_def algebra_simps)
  have pD: "0 \<le> p * D" using assms(4) Dnn by simp
  have pos10: "\<And>n. (0::int) < 10 ^ n" by simp
  have "0 < m1 * 10 ^ Q" using assms(1) by simp
  moreover have "0 \<le> p * D * 10 ^ k1" using pD by simp
  ultimately have Xpos: "0 < X" unfolding X_def by linarith
  have ge: "m1 * 10 ^ S \<le> X * 10 ^ k1"
  proof -
    have "m1 * 10 ^ Q \<le> X" unfolding X_def using \<open>0 \<le> p * D * 10 ^ k1\<close> by linarith
    then have "m1 * 10 ^ Q * 10 ^ k1 \<le> X * 10 ^ k1" by (simp add: mult_right_mono)
    then show ?thesis by (simp add: S_def power_add mult.assoc)
  qed
  have pDle: "p * D \<le> 10 ^ q * D" using assms(5) Dnn by (simp add: mult_right_mono)
  have up: "X * 10 ^ k2 \<le> m2 * 10 ^ S"
  proof -
    have "X * 10 ^ k2 = (p * D + A * 10 ^ q) * (10 ^ k1 * 10 ^ k2)"
      by (simp add: X_def A_def Q_def power_add algebra_simps)
    also have "\<dots> \<le> (10 ^ q * D + A * 10 ^ q) * (10 ^ k1 * 10 ^ k2)"
      using pDle by (intro mult_right_mono) simp_all
    also have "\<dots> = B * 10 ^ q * (10 ^ k1 * 10 ^ k2)"
      by (simp add: D_def algebra_simps)
    also have "\<dots> = m2 * 10 ^ S"
      by (simp add: B_def S_def Q_def power_add algebra_simps)
    finally show ?thesis .
  qed
  have "m2 * 10 ^ S < (10 ^ 21 * 10 ^ k2) * 10 ^ S"
    using assms(3) by (intro mult_strict_right_mono) simp_all
  moreover have "(10 ^ 21 * 10 ^ k2) * 10 ^ S = (10 ^ 21 * 10 ^ S) * (10::int) ^ k2"
    by (simp add: algebra_simps)
  ultimately have "X * 10 ^ k2 < (10 ^ 21 * 10 ^ S) * 10 ^ k2" using up by linarith
  then have small: "X < 10 ^ 21 * 10 ^ S"
    by (rule mult_right_less_imp_less) simp
  show ?thesis using that rf Xpos small up ge by blast
qed

text \<open>
  In exact arithmetic a draw of at most \<open>m2 / 10 ^ k2\<close> rounds to at most \<open>M\<close> when
  \<open>M\<close> is that bound at precision \<open>d\<close>.
\<close>

lemma rounded_below_max:
  fixes X m2 M :: int
  assumes "0 < X" and up: "X * 10 ^ k2 \<le> m2 * 10 ^ S" and mx: "m2 * 10 ^ d = M * 10 ^ k2"
  shows "int (roundScaled (nat X) S d) \<le> M"
proof -
  have "X * 10 ^ d * 10 ^ k2 = X * 10 ^ k2 * 10 ^ d" by (simp add: algebra_simps)
  also have "\<dots> \<le> m2 * 10 ^ S * 10 ^ d" using up by (intro mult_right_mono) simp_all
  also have "\<dots> = M * 10 ^ S * 10 ^ k2" using mx by (simp add: algebra_simps)
  finally have "X * 10 ^ d * 10 ^ k2 \<le> M * 10 ^ S * 10 ^ k2" .
  then have XM: "X * 10 ^ d \<le> M * 10 ^ S"
    by (rule mult_right_le_imp_le) simp
  have n: "2 * int (roundScaled (nat X) S d) * 10 ^ S \<le> 2 * X * 10 ^ d + 10 ^ S"
  proof -
    have "2 * roundScaled (nat X) S d * 10 ^ S \<le> 2 * nat X * 10 ^ d + 10 ^ S"
      using roundScaled_nearest [of "nat X" S d] by simp
    then have "int (2 * roundScaled (nat X) S d * 10 ^ S) \<le> int (2 * nat X * 10 ^ d + 10 ^ S)"
      by (simp only: of_nat_le_iff)
    then show ?thesis using assms(1) by simp
  qed
  have "2 * int (roundScaled (nat X) S d) * 10 ^ S < 2 * (M + 1) * 10 ^ S"
  proof -
    have "2 * X * 10 ^ d + 10 ^ S \<le> 2 * (M * 10 ^ S) + 10 ^ S" using XM by simp
    also have "\<dots> < 2 * (M + 1) * 10 ^ S" by (simp add: algebra_simps)
    finally show ?thesis using n by linarith
  qed
  then have "int (roundScaled (nat X) S d) * (2 * 10 ^ S) < (M + 1) * (2 * 10 ^ S)"
    by (simp add: algebra_simps)
  then have "int (roundScaled (nat X) S d) < M + 1"
    by (rule mult_right_less_imp_less) simp
  then show ?thesis by simp
qed

text \<open>
  With validated inputs whose maximum parses at precision \<open>d \<le> 100\<close>, every draw yields a
  display string and an amount; with the exact draw of this model the amount is at most
  the parsed maximum.
\<close>

lemma nextAmount_valid:
  assumes "\<not> someNaN v" and "\<not> rangeInvalid v"
    and "parseUnits (numberToString (maxVal v)) d = Inr M"
    and "d \<le> 100" and "inUnitInterval r"
  shows "\<exists>n. nextAmount (minVal v) (maxVal v) d r = Inr (renderFixed n d, int n) \<and> int n \<le> M"
proof -
  obtain m1 k1 m2 k2 where v: "minVal v = Fin m1 k1" "maxVal v = Fin m2 k2"
    "0 < m1" "0 < m2" "m1 * 10 ^ k2 \<le> m2 * 10 ^ k1"
    "m2 < 10 ^ 21 * 10 ^ k2" "m2 * 10 ^ d = M * 10 ^ k2"
    using valid_amounts [OF assms(1,2,3)] by blast
  obtain p q where r: "r = Fin p q" "0 \<le> p" "p < 10 ^ q"
    using assms(5) by (cases r) simp_all
  obtain X S where x: "randomFloat (Fin m1 k1) (Fin m2 k2) (Fin p q) = Fin X S"
    "0 < X" "X < 10 ^ 21 * 10 ^ S" "X * 10 ^ k2 \<le> m2 * 10 ^ S"
    using draw_bounds [OF v(3) v(5) v(6) r(2), of q] r(3) by (metis less_imp_le)
  have t: "toFixed (Fin X S) d = Inr (renderFixed (roundScaled (nat X) S d) d)"
    using toFixed_fixed [OF assms(4), of X S] x(2,3) by simp
  have "nextAmount (minVal v) (maxVal v) d r
        = Inr (renderFixed (roundScaled (nat X) S d) d, int (roundScaled (nat X) S d))"
    by (simp add: nextAmount_def v(1,2) r(1) x(1) t parseUnits_renderFixed del: toFixed.simps)
  moreover have "int (roundScaled (nat X) S d) \<le> M"
    using rounded_below_max [OF x(2) x(4) v(7)] .
  ultimately show ?thesis by blast
qed

text \<open>
  Claim C1, as amended. Let the precision \<open>d\<close> be at most 100 and let the draw of
  \<open>randomFloat\<close> be a finite value \<open>x = m / 10 ^ k\<close> with \<open>0 \<le> x < 10 ^ 21\<close>. Then lines 152
  to 158 produce a display string and an amount: the string is the integer \<open>n\<close> nearest to
  \<open>x * 10 ^ d\<close> (the larger one on a tie, so rounding and not truncation) written with
  exactly \<open>d\<close> fractional digits, and \<open>parseUnits\<close> accepts it at precision \<open>d\<close> and yields
  \<open>n\<close>.
\<close>

theorem nextAmount_fixed:
  assumes "d \<le> 100" and "randomFloat lo hi r = Fin m k" and "0 \<le> m" and "m < 10 ^ 21 * 10 ^ k"
  shows "nextAmount lo hi d r
           = Inr (renderFixed (roundScaled (nat m) k d) d, int (roundScaled (nat m) k d))
         \<and> fractionLength (renderFixed (roundScaled (nat m) k d) d) = d
         \<and> 2 * roundScaled (nat m) k d * 10 ^ k \<le> 2 * nat m * 10 ^ d + 10 ^ k
         \<and> 2 * nat m * 10 ^ d < 2 * roundScaled (nat m) k d * 10 ^ k + 10 ^ k"
  using toFixed_fixed [OF assms(1,3,4)] roundScaled_nearest [of "nat m" k d]
  by (simp add: nextAmount_def assms(2) parseUnits_renderFixed fractionLength_renderFixed)

text \<open>
  The theorem at \<open>min = 0.1\<close>, \<open>max = 0.5\<close>, six decimals and \<open>Math.random() = 0.25\<close>: the draw
  is 0.2, shown as \<open>0.200000\<close> and parsed to 200000.
\<close>

theorem nextAmount_fixed_witness:
  "(6::nat) \<le> 100 \<and> randomFloat (Fin 1 1) (Fin 5 1) (Fin 25 2) = Fin 20000 5
   \<and> nextAmount (Fin 1 1) (Fin 5 1) 6 (Fin 25 2) = Inr (''0.200000'', 200000)
   \<and> fractionLength ''0.200000'' = 6"
  using nextAmount_fixed [of 6 "Fin 1 1" "Fin 5 1" "Fin 25 2" 20000 5]
  by (simp add: randomFloat_def num_sub_def roundScaled_def renderFixed_def lastDigits_numeral
        natToDigits.simps digitChar_def)

text \<open>
  Claim C1 as stated fails for a precision above 100: with \<open>min = 0.1\<close>, \<open>max = 0.5\<close> and the
  draw 0.2 in \<open>[min, max)\<close>, a token of 101 decimals makes \<open>toFixed\<close> throw a RangeError, so
  there is no display string and nothing is parsed.
\<close>

theorem nextAmount_precision_counterexample:
  "num_le (Fin 1 1) (randomFloat (Fin 1 1) (Fin 5 1) (Fin 25 2))
   \<and> num_lt (randomFloat (Fin 1 1) (Fin 5 1) (Fin 25 2)) (Fin 5 1)
   \<and> nextAmount (Fin 1 1) (Fin 5 1) 101 (Fin 25 2) = Inl RangeError"
  by (simp add: randomFloat_def num_sub_def nextAmount_def)

section \<open>The connection procedure (claim C2)\<close>

lemma connect_not_guard: "isConnectEvent e \<Longrightarrow> \<not> isGuardEvent e \<and> \<not> isNominal e \<and> \<not> isSubscribe e"
  by (cases e) simp_all

lemma prefixed_empty: "prefixed [] r = r"
  by (cases r) (simp add: prefixed_def)

lemma prefixed_twice: "prefixed xs (prefixed ys r) = prefixed (xs @ ys) r"
  by (cases r) (simp add: prefixed_def)

text \<open>
  While the endpoint does not answer, the attempts from \<open>a\<close> up to \<open>b\<close> each end in the
  warning, the log and the wait, and attempt \<open>b\<close> comes next.
\<close>

lemma connect_failing:
  "a \<le> b \<Longrightarrow> b \<le> 8 \<Longrightarrow> (\<forall>j. a \<le> j \<and> j < b \<longrightarrow> \<not> rpcOk w j) \<Longrightarrow>
   connect w a = prefixed (concat (map retryEvents [a ..< b])) (connect w b)"
proof (induction b)
  case 0
  then show ?case by (simp add: prefixed_empty)
next
  case (Suc b)
  show ?case
  proof (cases "a = Suc b")
    case True
    then show ?thesis by (simp add: prefixed_empty)
  next
    case False
    then have ab: "a \<le> b" using Suc(2) by simp
    have b8: "b < 8" using Suc(3) by simp
    have nok: "\<not> rpcOk w b" using Suc(4) ab by simp
    have ih: "connect w a = prefixed (concat (map retryEvents [a ..< b])) (connect w b)"
      using Suc(1) ab b8 Suc(4) by simp
    have st: "connect w b = prefixed (retryEvents b) (connect w (Suc b))"
      using connect_retry_step [OF b8 nok] by (simp add: retryEvents_def)
    have "[a ..< Suc b] = [a ..< b] @ [b]" using ab by simp
    then show ?thesis by (simp add: ih st prefixed_twice)
  qed
qed

lemma run_ready:
  "ready w \<Longrightarrow>
   run w = fst (connect w 1) @ (if snd (connect w 1) = Completed then tryBody w else [])"
  by (cases "connect w 1") (auto simp add: run_def ready_def split: outcome.splits)

lemma retry_network: "filter isGetNetwork (retryEvents k) = [GetNetwork k]"
  by (simp add: retryEvents_def)

lemma retries_network:
  "length (filter isGetNetwork (concat (map retryEvents ks))) = length ks"
  by (induction ks) (simp_all add: retry_network)

lemma retries_connect: "list_all isConnectEvent (concat (map retryEvents ks))"
  by (induction ks) (simp_all add: retryEvents_def)

text \<open>The run when the endpoint never answers.\<close>

lemma run_all_fail:
  assumes "ready w" and "\<forall>j. 1 \<le> j \<and> j \<le> 8 \<longrightarrow> \<not> rpcOk w j"
  shows "run w = concat (map retryEvents [1 ..< 8])
                   @ [GetNetwork 8, WarnRpcFailed 8, ErrExceededAttempts, Exit 1]"
proof -
  have "connect w 1 = prefixed (concat (map retryEvents [1 ..< 8])) (connect w 8)"
    using assms(2) by (intro connect_failing) simp_all
  moreover have "connect w 8 = ([GetNetwork 8, WarnRpcFailed 8, ErrExceededAttempts, Exit 1], Exited)"
    using assms(2) by (intro connect_exhausted) simp
  ultimately have "connect w 1 = (concat (map retryEvents [1 ..< 8])
                   @ [GetNetwork 8, WarnRpcFailed 8, ErrExceededAttempts, Exit 1], Exited)"
    by (simp only: prefixed_pair)
  then show ?thesis using run_ready [OF assms(1)] by simp
qed

text \<open>
  Claim C2. No run makes more than 8 attempts. In a run that reaches the connection
  (line 63), when the endpoint fails the attempts 1 to \<open>k\<close> for a \<open>k < 8\<close>, each of them is
  followed by a wait of exactly \<open>2000 * 2 ^ (j - 1)\<close> milliseconds and attempt \<open>k + 1\<close> comes
  next; when the endpoint answers attempt \<open>k\<close> first, no further attempt is made; and when
  it fails all 8 attempts, 8 attempts are made and the process exits with status 1 with no
  event of the allowance check, no iteration and no submission.
\<close>

theorem connect_retry:
  "length (filter isGetNetwork (run w)) \<le> 8
   \<and> (\<forall>k. ready w \<and> 1 \<le> k \<and> k < 8 \<and> (\<forall>j. 1 \<le> j \<and> j \<le> k \<longrightarrow> \<not> rpcOk w j) \<longrightarrow>
         (\<exists>post. run w = concat (map retryEvents [1 ..< k + 1]) @ GetNetwork (k + 1) # post))
   \<and> (\<forall>k. ready w \<and> 1 \<le> k \<and> k \<le> 8 \<and> (\<forall>j. 1 \<le> j \<and> j < k \<longrightarrow> \<not> rpcOk w j) \<and> rpcOk w k \<longrightarrow>
         run w = concat (map retryEvents [1 ..< k]) @ [GetNetwork k, LogConnected k] @ tryBody w
         \<and> length (filter isGetNetwork (run w)) = k)
   \<and> (ready w \<and> (\<forall>j. 1 \<le> j \<and> j \<le> 8 \<longrightarrow> \<not> rpcOk w j) \<longrightarrow>
         run w = concat (map retryEvents [1 ..< 8])
                   @ [GetNetwork 8, WarnRpcFailed 8, ErrExceededAttempts, Exit 1]
         \<and> length (filter isGetNetwork (run w)) = 8
         \<and> last (run w) = Exit 1
         \<and> list_all (\<lambda>e. \<not> isGuardEvent e \<and> \<not> isIterationEvent e \<and> \<not> isTokenCall e) (run w))"
proof (intro conjI allI impI)
  obtain rest where rest: "run w = rest \<or> run w = fst (connect w 1) @ rest"
    and cls: "list_all (\<lambda>e. \<not> isRpcEvent e) rest"
    using run_split [of w] by blast
  have none: "filter isGetNetwork rest = []"
    using cls by (rule filter_none) (case_tac e, simp_all)
  have "length (filter isGetNetwork (fst (connect w 1))) \<le> 8"
    using connect_attempts [of w 1] by simp
  then show "length (filter isGetNetwork (run w)) \<le> 8"
    using rest none by auto
next
  fix k
  assume h: "ready w \<and> 1 \<le> k \<and> k < 8 \<and> (\<forall>j. 1 \<le> j \<and> j \<le> k \<longrightarrow> \<not> rpcOk w j)"
  have c: "connect w 1 = prefixed (concat (map retryEvents [1 ..< k + 1])) (connect w (k + 1))"
    using h by (intro connect_failing) simp_all
  obtain rest where hd: "fst (connect w (k + 1)) = GetNetwork (k + 1) # rest"
    using connect_head [of "k + 1" w] h by auto
  have "fst (connect w 1) = concat (map retryEvents [1 ..< k + 1]) @ GetNetwork (k + 1) # rest"
    by (simp only: c fst_prefixed hd)
  then have "run w = concat (map retryEvents [1 ..< k + 1]) @ GetNetwork (k + 1) #
               (rest @ (if snd (connect w 1) = Completed then tryBody w else []))"
    using run_ready [of w] h by simp
  then show "\<exists>post. run w = concat (map retryEvents [1 ..< k + 1]) @ GetNetwork (k + 1) # post"
    by blast
next
  fix k
  assume h: "ready w \<and> 1 \<le> k \<and> k \<le> 8 \<and> (\<forall>j. 1 \<le> j \<and> j < k \<longrightarrow> \<not> rpcOk w j) \<and> rpcOk w k"
  have c: "connect w 1 = prefixed (concat (map retryEvents [1 ..< k])) (connect w k)"
    using h by (intro connect_failing) simp_all
  have s: "connect w k = ([GetNetwork k, LogConnected k], Completed)"
    using h by (intro connect_success) simp_all
  have c1: "connect w 1 = (concat (map retryEvents [1 ..< k]) @ [GetNetwork k, LogConnected k], Completed)"
    by (simp only: c s prefixed_pair)
  then have r: "run w = concat (map retryEvents [1 ..< k]) @ [GetNetwork k, LogConnected k] @ tryBody w"
    using run_ready [of w] h by simp
  then show "run w = concat (map retryEvents [1 ..< k]) @ [GetNetwork k, LogConnected k] @ tryBody w" .
  have nb: "filter isGetNetwork (tryBody w) = []"
  proof -
    obtain rest where rest: "run w = rest \<or> run w = fst (connect w 1) @ rest"
      and cls: "list_all (\<lambda>e. \<not> isRpcEvent e) rest"
      using run_split [of w] by blast
    have a: "length (filter isGetNetwork (run w)) = k + length (filter isGetNetwork (tryBody w))"
      using h by (simp add: r retries_network)
    have none: "filter isGetNetwork rest = []"
      using cls by (rule filter_none) (case_tac e, simp_all)
    have b: "length (filter isGetNetwork (fst (connect w 1))) = k"
      using h by (simp add: c1 retries_network del: One_nat_def)
    have "length (filter isGetNetwork (run w)) \<le> k" using rest none b by auto
    then show ?thesis using a by simp
  qed
  show "length (filter isGetNetwork (run w)) = k"
    using h by (simp add: r retries_network nb)
next
  assume h: "ready w \<and> (\<forall>j. 1 \<le> j \<and> j \<le> 8 \<longrightarrow> \<not> rpcOk w j)"
  have r: "run w = concat (map retryEvents [1 ..< 8])
                   @ [GetNetwork 8, WarnRpcFailed 8, ErrExceededAttempts, Exit 1]"
    using h by (intro run_all_fail) simp_all
  then show "run w = concat (map retryEvents [1 ..< 8])
                   @ [GetNetwork 8, WarnRpcFailed 8, ErrExceededAttempts, Exit 1]" .
  show "length (filter isGetNetwork (run w)) = 8"
    by (simp add: r retries_network)
  show "last (run w) = Exit 1" by (simp add: r)
  have "list_all isConnectEvent (run w)"
    by (simp add: r retries_connect)
  moreover have "\<not> isGuardEvent e \<and> \<not> isIterationEvent e \<and> \<not> isTokenCall e"
    if "isConnectEvent e" for e using that by (cases e) simp_all
  ultimately show "list_all (\<lambda>e. \<not> isGuardEvent e \<and> \<not> isIterationEvent e \<and> \<not> isTokenCall e) (run w)"
    by (simp add: list_all_iff)
qed

text \<open>
  The theorem at the example world, whose endpoint fails the first attempt and answers the
  second, and at the same world with an endpoint that never answers.
\<close>

theorem connect_retry_witness:
  "ready exampleWorld \<and> \<not> rpcOk exampleWorld 1 \<and> rpcOk exampleWorld 2
   \<and> (\<exists>post. run exampleWorld =
          [GetNetwork 1, WarnRpcFailed 1, LogRetrying (Fin 2000 0), Sleep (Fin 2000 0),
           GetNetwork 2] @ post)
   \<and> length (filter isGetNetwork (run exampleWorld)) = 2
   \<and> ready (exampleWorld\<lparr>rpcOk := \<lambda>k. False\<rparr>)
   \<and> \<not> rpcOk (exampleWorld\<lparr>rpcOk := \<lambda>k. False\<rparr>) 8
   \<and> length (filter isGetNetwork (run (exampleWorld\<lparr>rpcOk := \<lambda>k. False\<rparr>))) = 8
   \<and> last (run (exampleWorld\<lparr>rpcOk := \<lambda>k. False\<rparr>)) = Exit 1
   \<and> list_all (\<lambda>e. \<not> isGuardEvent e \<and> \<not> isIterationEvent e \<and> \<not> isTokenCall e)
        (run (exampleWorld\<lparr>rpcOk := \<lambda>k. False\<rparr>))"
proof -
  let ?down = "exampleWorld\<lparr>rpcOk := \<lambda>k. False\<rparr>"
  have up: "ready exampleWorld" "\<not> rpcOk exampleWorld 1" "rpcOk exampleWorld 2"
    by (simp_all add: ready_def exampleWorld_def)
  have f1: "\<forall>j. 1 \<le> j \<and> j \<le> 1 \<longrightarrow> \<not> rpcOk exampleWorld j"
    by (simp add: exampleWorld_def)
  have f2: "\<forall>j. 1 \<le> j \<and> j < 2 \<longrightarrow> \<not> rpcOk exampleWorld j"
    by (simp add: exampleWorld_def)
  have dn: "ready ?down" "\<not> rpcOk ?down 8" "\<forall>j. 1 \<le> j \<and> j \<le> 8 \<longrightarrow> \<not> rpcOk ?down j"
    by (simp_all add: ready_def exampleWorld_def)
  note t = connect_retry [of exampleWorld]
  note u = connect_retry [of ?down]
  have "\<exists>post. run exampleWorld = concat (map retryEvents [1 ..< 1 + 1]) @ GetNetwork (1 + 1) # post"
    using conjunct1 [OF conjunct2 [OF t], rule_format, of 1] up(1) f1 by simp
  then have a: "\<exists>post. run exampleWorld =
          [GetNetwork 1, WarnRpcFailed 1, LogRetrying (Fin 2000 0), Sleep (Fin 2000 0),
           GetNetwork 2] @ post"
    by (simp add: retryEvents_def numeral_2_eq_2)
  have p2: "ready exampleWorld \<and> 1 \<le> (2::nat) \<and> (2::nat) \<le> 8
      \<and> (\<forall>j. 1 \<le> j \<and> j < 2 \<longrightarrow> \<not> rpcOk exampleWorld j) \<and> rpcOk exampleWorld 2"
    using up f2 by simp
  have b: "length (filter isGetNetwork (run exampleWorld)) = 2"
    using conjunct1 [OF conjunct2 [OF conjunct2 [OF t]], rule_format, of 2, OF p2] by blast
  have c: "length (filter isGetNetwork (run ?down)) = 8 \<and> last (run ?down) = Exit 1
     \<and> list_all (\<lambda>e. \<not> isGuardEvent e \<and> \<not> isIterationEvent e \<and> \<not> isTokenCall e) (run ?down)"
    using conjunct2 [OF conjunct2 [OF conjunct2 [OF u]]] dn by blast
  show ?thesis using up a b dn(1,2) c by blast
qed

section \<open>Validation of the inputs (claim C3)\<close>

lemma connect_not_token: "isConnectEvent e \<Longrightarrow> \<not> isTokenCall e"
  by (cases e) simp_all

lemma connect_not_ask: "isConnectEvent e \<Longrightarrow> e \<noteq> Ask k"
  by (cases e) simp_all


lemma run_zero_loops:
  "run (exampleWorld\<lparr>loopsStr := ''0''\<rparr>) =
     [GetNetwork 1, WarnRpcFailed 1, LogRetrying (Fin 2000 0), Sleep (Fin 2000 0),
      GetNetwork 2, LogConnected 2, LogAddresses, Ask 1, Ask 2, Ask 3, Ask 4, Ask 5,
      ErrInvalidRange, Exit 1]"
  by (simp add: exampleWorld_def run_eval js_eval)

lemma inputs_zero_loops:
  "\<not> someNaN (readInputs (exampleWorld\<lparr>loopsStr := ''0''\<rparr>))
   \<and> rangeInvalid (readInputs (exampleWorld\<lparr>loopsStr := ''0''\<rparr>))"
  by (simp add: exampleWorld_def run_eval js_eval)



section \<open>Failure of the approval (claim C7)\<close>

lemma connect_not_approve: "isConnectEvent e \<Longrightarrow> \<not> isApprove e"
  by (cases e) simp_all

lemma loop_not_approve: "isLoopEvent e \<Longrightarrow> \<not> isApprove e"
  by (cases e) simp_all

lemma ending_no_approve: "CallApprove a \<notin> set (ending out)"
  by (cases out) (simp_all add: ending_def)

lemma connect_no_approve: "CallApprove a \<notin> set (fst (connect w k))"
  using connect_events [of w k] by (rule not_in_class) simp

lemma loop_no_approve: "CallApprove a \<notin> set (fst (submitLoop w v d vw i rc))"
  using submitLoop_events [of w v d vw i rc] by (rule not_in_class) simp

lemma connect_no_iteration:
  "list_all (\<lambda>e. \<not> isNominal e \<and> \<not> isSubscribe e) (fst (connect w k))"
  using connect_events [of w k] connect_not_guard by (simp add: list_all_iff)

lemma guard_no_iteration:
  "list_all (\<lambda>e. \<not> isNominal e \<and> \<not> isSubscribe e) (fst (allowanceGuard w M al))"
  by (cases rule: allowanceGuard_cases [where w = w and al = al and M = M]) simp_all

lemma connect_no_done: "LogDone \<notin> set (fst (connect w k))"
  using connect_events [of w k] by (rule not_in_class) simp

lemma guard_no_done: "LogDone \<notin> set (fst (allowanceGuard w M al))"
  using guard_events [of w M al] by (rule not_in_class) simp

text \<open>
  Claim C7. When the approval is sent and it is rejected or its confirmation fails, nothing
  catches the error before the handler of the whole run: the run ends with the approval
  (or the wait for it), the report of the fatal error and the exit with status 1, and it
  holds no iteration, no submission and no completion line.
\<close>

theorem approve_failure_fatal:
  assumes sent: "CallApprove a \<in> set (run w)" and failed: "approveRes w \<noteq> Confirmed"
  shows "(\<exists>pre. run w = pre @ [CallApprove MaxUint256, ErrFatal CallFailed, Exit 1]
               \<or> run w = pre @ [CallApprove MaxUint256, LogApproveTx, WaitApprove,
                                 ErrFatal CallFailed, Exit 1])
         \<and> list_all (\<lambda>e. \<not> isNominal e \<and> \<not> isSubscribe e) (run w)
         \<and> LogDone \<notin> set (run w)"
proof (cases rule: run_cases [where w = w])
  case (early ev)
  then show ?thesis using sent by auto
next
  case unreachable
  then show ?thesis using sent connect_no_approve [of a w 1] by simp
next
  case (rejected ev)
  then show ?thesis using sent connect_no_approve [of a w 1]
    by (auto simp add: asked_def split: if_splits)
next
  case noDecimals
  then show ?thesis using sent connect_no_approve [of a w 1] by (auto simp add: asked_def)
next
  case (badMax d e)
  then show ?thesis using sent connect_no_approve [of a w 1] by (auto simp add: asked_def)
next
  case (noAllowance d M)
  then show ?thesis using sent connect_no_approve [of a w 1] by (auto simp add: asked_def)
next
  case (approveFailed d M al gtr)
  let ?pre = "fst (connect w 1) @ asked
               @ [CallDecimals, LogDecimals d, CallAllowance, LogAllowance al]"
  have g: "gtr = [LogApproving, CallApprove MaxUint256]
           \<or> gtr = [LogApproving, CallApprove MaxUint256, LogApproveTx, WaitApprove]"
    using approveFailed(9)
    by (cases rule: allowanceGuard_cases [where w = w and al = al and M = M]) simp_all
  have r: "run w = ?pre @ gtr @ [ErrFatal CallFailed, Exit 1]"
    using approveFailed(10) by simp
  have shape: "\<exists>pre. run w = pre @ [CallApprove MaxUint256, ErrFatal CallFailed, Exit 1]
               \<or> run w = pre @ [CallApprove MaxUint256, LogApproveTx, WaitApprove,
                                 ErrFatal CallFailed, Exit 1]"
  proof -
    have "run w = (?pre @ [LogApproving]) @ [CallApprove MaxUint256, ErrFatal CallFailed, Exit 1]
        \<or> run w = (?pre @ [LogApproving]) @ [CallApprove MaxUint256, LogApproveTx, WaitApprove,
                                 ErrFatal CallFailed, Exit 1]"
      using g r by auto
    then show ?thesis by blast
  qed
  have quiet: "list_all (\<lambda>e. \<not> isNominal e \<and> \<not> isSubscribe e) (run w)"
    using g r connect_no_iteration [of w 1] by (auto simp add: asked_def)
  have "LogDone \<notin> set (run w)"
    using g r connect_no_done [of w 1] by (auto simp add: asked_def)
  then show ?thesis using shape quiet by blast
next
  case (badValue d M al gtr e)
  have "CallApprove a \<notin> set gtr"
    using badValue(7) failed
    by (cases rule: allowanceGuard_cases [where w = w and al = al and M = M]) auto
  then show ?thesis using sent badValue(9) connect_no_approve [of a w 1]
    by (auto simp add: asked_def)
next
  case (looped d M al gtr vw ltr out)
  have "CallApprove a \<notin> set gtr"
    using looped(7) failed
    by (cases rule: allowanceGuard_cases [where w = w and al = al and M = M]) auto
  moreover have "CallApprove a \<notin> set ltr"
    using loop_no_approve [of a w "readInputs w" d vw 1 0] looped(9) by simp
  ultimately show ?thesis
    using sent looped(10) connect_no_approve [of a w 1] ending_no_approve [of a out]
    by (auto simp add: asked_def)
qed

lemma run_approve_rejected:
  "run (exampleWorld\<lparr>approveRes := SendFails\<rparr>) =
     [GetNetwork 1, WarnRpcFailed 1, LogRetrying (Fin 2000 0), Sleep (Fin 2000 0),
      GetNetwork 2, LogConnected 2, LogAddresses, Ask 1, Ask 2, Ask 3, Ask 4, Ask 5,
      CallDecimals, LogDecimals 6, CallAllowance, LogAllowance 0,
      LogApproving, CallApprove MaxUint256, ErrFatal CallFailed, Exit 1]"
  by (simp add: exampleWorld_def run_eval js_eval)

text \<open>The theorem at the example world with an approval that is rejected.\<close>

theorem approve_failure_fatal_witness:
  "CallApprove MaxUint256 \<in> set (run (exampleWorld\<lparr>approveRes := SendFails\<rparr>))
   \<and> approveRes (exampleWorld\<lparr>approveRes := SendFails\<rparr>) \<noteq> Confirmed
   \<and> list_all (\<lambda>e. \<not> isNominal e \<and> \<not> isSubscribe e) (run (exampleWorld\<lparr>approveRes := SendFails\<rparr>))
   \<and> LogDone \<notin> set (run (exampleWorld\<lparr>approveRes := SendFails\<rparr>))
   \<and> (\<exists>pre. run (exampleWorld\<lparr>approveRes := SendFails\<rparr>)
              = pre @ [CallApprove MaxUint256, ErrFatal CallFailed, Exit 1])"
proof -
  have sent: "CallApprove MaxUint256 \<in> set (run (exampleWorld\<lparr>approveRes := SendFails\<rparr>))"
    by (simp add: run_approve_rejected)
  have failed: "approveRes (exampleWorld\<lparr>approveRes := SendFails\<rparr>) \<noteq> Confirmed"
    by simp
  have shape: "\<exists>pre. run (exampleWorld\<lparr>approveRes := SendFails\<rparr>)
              = pre @ [CallApprove MaxUint256, ErrFatal CallFailed, Exit 1]"
    by (simp add: run_approve_rejected)
  show ?thesis
    using approve_failure_fatal [OF sent failed] sent failed shape by blast
qed

section \<open>The allowance check (claim C4)\<close>

text \<open>
  Claim C4 at a failing input. With the version 5 bindings, a maximum amount of 0.5 at six
  decimals (500000 units) and an allowance of 1000000 units, the allowance is not less than
  what is needed, yet line 136 finds it too small, because the string \<open>1000000\<close> sorts before
  the string \<open>500000\<close>, and the approval is sent. With the version 6 bindings the same
  allowance is found sufficient.
\<close>

theorem allowance_check_v5_evaluation:
  "parseUnits (numberToString (maxVal (readInputs
       (exampleWorld\<lparr>isV6 := False, isV5 := True, allowanceRes := Some 1000000\<rparr>)))) 6
     = Inr 500000
   \<and> \<not> (int 1000000 < 500000)
   \<and> allowTooSmall False 1000000 500000
   \<and> run (exampleWorld\<lparr>isV6 := False, isV5 := True, allowanceRes := Some 1000000,
                       loopsStr := ''1''\<rparr>) =
     [GetNetwork 1, WarnRpcFailed 1, LogRetrying (Fin 2000 0), Sleep (Fin 2000 0),
      GetNetwork 2, LogConnected 2, LogAddresses, Ask 1, Ask 2, Ask 3, Ask 4, Ask 5,
      CallDecimals, LogDecimals 6, CallAllowance, LogAllowance 1000000,
      LogApproving, CallApprove MaxUint256, LogApproveTx, WaitApprove, LogApproveConfirmed,
      LogSubscribeValue 0,
      LogNominal 1 ''0.200000'' 200000, CallSubscribe 200000 0, LogTxSent, WaitSubscribe,
      LogConfirmed, LogDone]
   \<and> run (exampleWorld\<lparr>allowanceRes := Some 1000000, loopsStr := ''1''\<rparr>) =
     [GetNetwork 1, WarnRpcFailed 1, LogRetrying (Fin 2000 0), Sleep (Fin 2000 0),
      GetNetwork 2, LogConnected 2, LogAddresses, Ask 1, Ask 2, Ask 3, Ask 4, Ask 5,
      CallDecimals, LogDecimals 6, CallAllowance, LogAllowance 1000000,
      LogAllowanceSufficient,
      LogSubscribeValue 0,
      LogNominal 1 ''0.200000'' 200000, CallSubscribe 200000 0, LogTxSent, WaitSubscribe,
      LogConfirmed, LogDone]"
  by (simp add: exampleWorld_def run_eval js_eval)

section \<open>Isolation of failed submissions (claim C5)\<close>


lemma randomOk_exampleWorld: "randomOk exampleWorld"
  by (simp add: randomOk_def exampleWorld_def)



section \<open>Loop counts that are not integers (claim C8)\<close>

lemma isDigit_not_space: "isDigit c \<Longrightarrow> \<not> isWhiteSpace c"
  by (auto simp add: isDigit_def isWhiteSpace_def)

lemma isDigit_not_sign: "isDigit c \<Longrightarrow> c \<noteq> CHR ''-'' \<and> c \<noteq> CHR ''+''"
  by (auto simp add: isDigit_def)

lemma isDigit_not_x: "isDigit c \<Longrightarrow> c \<noteq> CHR ''x'' \<and> c \<noteq> CHR ''X''"
  by (auto simp add: isDigit_def)

lemma takeWhile_digits_prefix:
  "list_all isDigit ds \<Longrightarrow> rest = [] \<or> \<not> isDigit (hd rest) \<Longrightarrow>
   takeWhile isDigit (ds @ rest) = ds"
  by (induction ds) (cases rest, simp_all)

text \<open>
  A string that starts with decimal digits followed by something that is not a digit (and
  that is not a hexadecimal prefix) parses to the value of those digits.
\<close>

lemma parseInt_prefix:
  assumes "ds \<noteq> []" and "list_all isDigit ds" and "rest = [] \<or> \<not> isDigit (hd rest)"
    and "\<not> (ds = ''0'' \<and> (startsWith rest ''x'' \<or> startsWith rest ''X''))"
  shows "parseInt (ds @ rest) = Fin (int (digitsToNat ds)) 0"
proof -
  obtain c cs where ds: "ds = c # cs" using assms(1) by (cases ds) simp_all
  have c: "isDigit c" using assms(2) ds by simp
  have trim: "trimStart (ds @ rest) = ds @ rest"
    using c ds isDigit_not_space by (simp add: trimStart_def)
  have sign: "stripSign (ds @ rest) = (False, ds @ rest)"
    using c ds isDigit_not_sign by simp
  have nohex: "\<not> startsWith (ds @ rest) ''0x'' \<and> \<not> startsWith (ds @ rest) ''0X''"
  proof (cases cs)
    case Nil
    then show ?thesis
      using assms(4) ds by (cases rest) (auto simp add: startsWith_def)
  next
    case (Cons c' cs')
    then have "isDigit c'" using assms(2) ds by simp
    then show ?thesis using ds Cons isDigit_not_x [of c'] by (auto simp add: startsWith_def)
  qed
  have tw: "takeWhile isDigit (ds @ rest) = ds"
    using takeWhile_digits_prefix [OF assms(2,3)] .
  show ?thesis
    using nohex assms(1) by (simp add: parseInt_def trim sign tw Let_def)
qed

lemma connect_loopsStr: "connect (w\<lparr>loopsStr := s\<rparr>) k = connect w k"
proof (induction w k rule: connect.induct)
  case (1 w attempt)
  show ?case
  proof (cases "attempt \<le> MAX_ATTEMPTS \<and> \<not> rpcOk w attempt \<and> attempt \<noteq> MAX_ATTEMPTS")
    case True
    then have "connect (w\<lparr>loopsStr := s\<rparr>) (attempt + 1) = connect w (attempt + 1)"
      using 1 by simp
    then show ?thesis
      using True
      by (simp add: connect.simps [of w attempt] connect.simps [of "w\<lparr>loopsStr := s\<rparr>" attempt])
  next
    case False
    then show ?thesis
      by (auto simp add: connect.simps [of w attempt] connect.simps [of "w\<lparr>loopsStr := s\<rparr>" attempt])
  qed
qed

lemma subscribe_loopsStr: "subscribe (w\<lparr>loopsStr := s\<rparr>) i a vw = subscribe w i a vw"
  by (simp add: subscribe_def)

lemma submitLoop_loopsStr:
  "submitLoop (w\<lparr>loopsStr := s\<rparr>) v d vw i rc = submitLoop w v d vw i rc"
proof (induction i rc rule: loop_induct [where w = w and v = v and d = d])
  case (stop i rc)
  then show ?case by (simp add: submitLoop_stop)
next
  case (throw i rc e)
  then show ?case
  proof -
    have m: "nextAmount (minVal v) (maxVal v) d (mathRandom (w\<lparr>loopsStr := s\<rparr>) rc) = Inl e"
      using throw(2) by simp
    show ?thesis
      by (simp add: submitLoop_throw [OF throw(1,2)] submitLoop_throw [OF throw(1) m])
  qed
next
  case (step i rc x a)
  have m: "nextAmount (minVal v) (maxVal v) d (mathRandom (w\<lparr>loopsStr := s\<rparr>) rc) = Inr (x, a)"
    using step(2) by simp
  show ?case
    using step(3)
    by (simp add: submitLoop_step [OF step(1,2)] submitLoop_step [OF step(1) m] subscribe_loopsStr)
next
  case (last i rc x a)
  have m: "nextAmount (minVal v) (maxVal v) d (mathRandom (w\<lparr>loopsStr := s\<rparr>) rc) = Inr (x, a)"
    using last(2) by simp
  show ?case
    by (simp add: submitLoop_last [OF last(1,2)] submitLoop_last [OF last(1) m] subscribe_loopsStr)
qed

text \<open>The run depends on the loop-count string only through what \<open>parseInt\<close> makes of it.\<close>

lemma run_loopsStr:
  assumes "parseInt s = parseInt (loopsStr w)"
  shows "run (w\<lparr>loopsStr := s\<rparr>) = run w"
proof -
  have ri: "readInputs (w\<lparr>loopsStr := s\<rparr>) = readInputs w"
    using assms by (simp add: readInputs_def)
  have g: "allowanceGuard (w\<lparr>loopsStr := s\<rparr>) M al = allowanceGuard w M al" for M al
    by (simp add: allowanceGuard_def)
  have sub: "submission (w\<lparr>loopsStr := s\<rparr>) v d = submission w v d" for v d
    by (simp add: submission_def submitLoop_loopsStr split: sum.splits)
  have tp: "tokenPhase (w\<lparr>loopsStr := s\<rparr>) v = tokenPhase w v" for v
    by (simp add: tokenPhase_def g sub split: option.splits sum.splits)
  have b: "body (w\<lparr>loopsStr := s\<rparr>) = body w"
    by (simp add: body_def Let_def ri tp)
  have tb: "tryBody (w\<lparr>loopsStr := s\<rparr>) = tryBody w"
    by (simp add: tryBody_def b split: option.splits sum.splits if_splits)
  show ?thesis by (simp add: run_def connect_loopsStr tb)
qed



section \<open>Delays between the iterations (claim C6)\<close>

lemma beats_append: "beats (xs @ ys) = beats xs @ beats ys"
  by (induction xs rule: beats.induct) simp_all

lemma beats_subscribe: "beats (subscribe w i a vw) = []"
  by (cases "subscribeRes w i") (simp_all add: subscribe_def)

text \<open>
  The iterations and sleeps of a loop that runs to its end from iteration \<open>i\<close> on: every
  iteration but the last is followed by one sleep.
\<close>

lemma loop_beats:
  "snd (submitLoop w v d vw i rc) = Completed \<longrightarrow>
   beats (fst (submitLoop w v d vw i rc))
     = (if int i \<le> loopCount (loops v)
        then concat (map (\<lambda>j. [Iteration j, Pause]) [i ..< nat (loopCount (loops v))])
             @ [Iteration (nat (loopCount (loops v)))]
        else [])"
proof (induction i rc rule: loop_induct [where w = w and v = v and d = d])
  case (stop i rc)
  then show ?case by (simp add: submitLoop_stop)
next
  case (throw i rc e)
  then show ?case by (simp add: submitLoop_throw)
next
  case (step i rc s a)
  have lt: "i < nat (loopCount (loops v))" using step(1) by linarith
  then have up: "[i ..< nat (loopCount (loops v))] = i # [i + 1 ..< nat (loopCount (loops v))]"
    by (simp add: upt_rec)
  have le: "int (i + 1) \<le> loopCount (loops v)" "int i \<le> loopCount (loops v)"
    using step(1) by simp_all
  show ?case
    using step(3) le
    by (simp add: submitLoop_step [OF step(1,2)] beats_append beats_subscribe up
          del: upt_Suc)
next
  case (last i rc s a)
  then have "nat (loopCount (loops v)) = i" by simp
  then show ?case
    using last(1) by (simp add: submitLoop_last [OF last(1,2)] beats_append beats_subscribe)
qed

lemma parseInt_integer: "parseInt s = NaN \<or> (\<exists>n. parseInt s = Fin n 0)"
  by (simp add: parseInt_def Let_def split: prod.splits)

lemma valid_loops:
  assumes "\<not> someNaN (readInputs w)" and "\<not> rangeInvalid (readInputs w)"
  shows "1 \<le> loopCount (loops (readInputs w))"
proof -
  have nn: "parseInt (loopsStr w) \<noteq> NaN"
    using assms(1) by (simp add: someNaN_def isNaN_def readInputs_def)
  then obtain n where n: "parseInt (loopsStr w) = Fin n 0"
    using parseInt_integer [of "loopsStr w"] by blast
  have "\<not> num_le (Fin n 0) zero"
    using assms(2) n by (simp add: rangeInvalid_def readInputs_def)
  then have "0 < n" by (simp add: zero_def)
  then show ?thesis using n by (simp add: readInputs_def)
qed




section \<open>The logged and the submitted amount (claim C10)\<close>

lemma filter_digits_id: "list_all isDigit s \<Longrightarrow> filter (\<lambda>c. c \<noteq> CHR ''.'') s = s"
  by (induction s) (simp_all add: isDigit_not_point)

lemma scaledInteger_renderFixed: "scaledInteger (renderFixed n d) = n"
proof -
  have "filter (\<lambda>c. c \<noteq> CHR ''.'') (renderFixed n d) = natToDigits (n div 10 ^ d) @ lastDigits d n"
    by (simp add: renderFixed_def filter_digits_id [OF natToDigits_digits]
          filter_digits_id [OF lastDigits_digits])
  then have "scaledInteger (renderFixed n d) = n div 10 ^ d * 10 ^ d + n mod 10 ^ d"
    by (simp add: scaledInteger_def digitsToNat_append digitsToNat_natToDigits
          digitsToNat_lastDigits)
  then show ?thesis by (simp only: div_mult_mod_eq)
qed

lemma toFixed_precision: "toFixed x d = Inr s \<Longrightarrow> d \<le> 100"
  by (cases x) (simp_all split: if_splits)

lemma nextAmount_precision: "nextAmount lo hi d r = Inr p \<Longrightarrow> d \<le> 100"
  by (auto simp add: nextAmount_def split: sum.splits dest: toFixed_precision)

lemma subscribe_call: "CallSubscribe a vw \<in> set (subscribe w i a vw)"
  by (cases "subscribeRes w i") (simp_all add: subscribe_def)

text \<open>The amount that an iteration logs is the amount that it submits.\<close>

lemma loop_submits_logged:
  "LogNominal j s a \<in> set (fst (submitLoop w v d vw i rc)) \<longrightarrow>
   CallSubscribe a vw \<in> set (fst (submitLoop w v d vw i rc))"
proof (induction i rc rule: loop_induct [where w = w and v = v and d = d])
  case (stop i rc)
  then show ?case by (simp add: submitLoop_stop)
next
  case (throw i rc e)
  then show ?case by (simp add: submitLoop_throw)
next
  case (step i rc s' a')
  then show ?case
    using subscribe_call [of a' vw w i]
    by (auto simp add: submitLoop_step [OF step(1,2)] subscribe_not_nominal)
next
  case (last i rc s' a')
  then show ?case
    using subscribe_call [of a' vw w i]
    by (auto simp add: submitLoop_last [OF last(1,2)] subscribe_not_nominal)
qed

text \<open>
  What lines 155 and 158 make of a finite draw that is not negative, when they succeed:
  a string of the fixed form and the integer that it renders.
\<close>

lemma nextAmount_rendered:
  assumes "randomFloat lo hi r = Fin m k" and "0 \<le> m" and "nextAmount lo hi d r = Inr (s, a)"
  shows "\<exists>n. s = renderFixed n d \<and> a = int n"
proof -
  have d: "d \<le> 100" using assms(3) by (rule nextAmount_precision)
  have small: "m < 10 ^ 21 * 10 ^ k"
  proof (rule ccontr)
    assume "\<not> m < 10 ^ 21 * 10 ^ k"
    then have big: "10 ^ 21 * 10 ^ k \<le> m" by simp
    have "(0::int) < 10 ^ 21 * 10 ^ k" by simp
    then have pos: "0 < m" using big by linarith
    have nb: "10 ^ 21 * 10 ^ k \<le> nat \<bar>m\<bar>"
      using big pos by (simp add: le_nat_iff)
    define NS where "NS = numberToString (Fin m k)"
    have tf: "toFixed (Fin m k) d = Inr NS"
      using d pos nb by (simp add: Let_def NS_def)
    have "nextAmount lo hi d r
            = (case parseUnits NS d of Inl e \<Rightarrow> Inl e | Inr ap \<Rightarrow> Inr (NS, ap))"
      by (simp only: nextAmount_def assms(1) tf sum.case)
    then have "(case parseUnits NS d of Inl e \<Rightarrow> Inl e | Inr ap \<Rightarrow> Inr (NS, ap)) = Inr (s, a)"
      using assms(3) by simp
    then have "parseUnits NS d = Inr a"
      by (cases "parseUnits NS d") simp_all
    then have "parseUnits (numberToString (Fin m k)) d = Inr a"
      by (simp only: NS_def)
    then have "m < 10 ^ 21 * 10 ^ k"
      using numberToString_parsed [OF pos] by blast
    then show False using big by simp
  qed
  have "toFixed (Fin m k) d = Inr (renderFixed (roundScaled (nat m) k d) d)"
    using toFixed_fixed [OF d assms(2) small] .
  then have "nextAmount lo hi d r
      = Inr (renderFixed (roundScaled (nat m) k d) d, int (roundScaled (nat m) k d))"
    by (simp add: nextAmount_def assms(1) parseUnits_renderFixed del: toFixed.simps)
  then show ?thesis using assms(3) by simp
qed



end
